theory Spec2Isabelle
  imports Complex_Main "HOL-Library.Sublist"
begin

section \<open>Errors and their combination\<close>

text \<open>
  A Go \<open>error\<close> value. \<open>Errno\<close> is an error produced outside this package (the API
  server, the operating system, the JSON encoder); \<open>Wrapped\<close> is the result of
  \<open>fmt.Errorf("<prefix>: %w", err)\<close>; \<open>MultiErr\<close> is the value built by
  \<open>multierr.Combine\<close> from two or more errors. A nil error is \<open>None :: error option\<close>.
\<close>

datatype error = Errno string | Wrapped string error | MultiErr "error list"

text \<open>
  \<open>multierr.Combine(errs...)\<close> on a slice without nil entries: nil for the empty slice,
  the error itself for a singleton, otherwise one multi-error whose entries are the
  given errors with directly nested multi-errors flattened.
\<close>

fun flatten_error :: "error \<Rightarrow> error list" where
  "flatten_error (MultiErr es) = es"
| "flatten_error e = [e]"

definition Combine :: "error list \<Rightarrow> error option" where
  "Combine errs =
     (case errs of
        [] \<Rightarrow> None
      | [e] \<Rightarrow> Some e
      | _ \<Rightarrow> Some (MultiErr (concat (map flatten_error errs))))"

section \<open>Group/version parsing\<close>

record GroupVersion =
  Group :: string
  Version :: string

record GroupVersionResource =
  gvrGroup :: string
  gvrVersion :: string
  gvrResource :: string

definition WithResource :: "GroupVersion \<Rightarrow> string \<Rightarrow> GroupVersionResource" where
  "WithResource gv r = \<lparr>gvrGroup = Group gv, gvrVersion = Version gv, gvrResource = r\<rparr>"

definition gvr_String :: "GroupVersionResource \<Rightarrow> string" where
  "gvr_String res = gvrGroup res @ ''/'' @ gvrVersion res @ '', Resource='' @ gvrResource res"

text \<open>
  \<open>strings.Split(s, sep)\<close> for a one-byte separator: the substrings between the
  separators, in order; a string without the separator gives the one-element slice.
\<close>

fun strings_Split :: "string \<Rightarrow> char \<Rightarrow> string list" where
  "strings_Split [] sep = [[]]"
| "strings_Split (c # cs) sep =
     (if c = sep then [] # strings_Split cs sep
      else (case strings_Split cs sep of
              [] \<Rightarrow> [[c]]
            | p # ps \<Rightarrow> (c # p) # ps))"

text \<open>
  \<open>groupVersionFromString\<close>: \<open>parts[0]\<close> and \<open>parts[1]\<close> are slice reads; a read out of
  range panics, which is the result \<open>None\<close>.
\<close>

definition groupVersionFromString :: "string \<Rightarrow> GroupVersion option" where
  "groupVersionFromString s =
     (let parts = strings_Split s CHR ''/'' in
      if length parts = 1 then Some \<lparr>Group = [], Version = parts ! 0\<rparr>
      else if length parts < 2 then None
      else Some \<lparr>Group = parts ! 0, Version = parts ! 1\<rparr>)"

section \<open>Discovery and pagination\<close>

record APIResource =
  Name :: string
  Kind :: string
  Verbs :: "string list"

record APIResourceList =
  GroupVersionStr :: string
  APIResources :: "APIResource list"

text \<open>
  \<open>unstructured.UnstructuredList\<close>: the items of one page and the continuation cursor
  that \<open>GetContinue\<close> reads.
\<close>

record 'o UnstructuredList =
  Items :: "'o list"
  Continue :: string

datatype Writer = Discard | Stream

record DiscoveryOptions =
  BatchSize :: int
  LogWriter :: "Writer option"

definition GetBatchSize :: "DiscoveryOptions \<Rightarrow> int" where
  "GetBatchSize opts = (if BatchSize opts = 0 then 500 else BatchSize opts)"

definition GetLogWriter :: "DiscoveryOptions \<Rightarrow> Writer" where
  "GetLogWriter opts = (case LogWriter opts of None \<Rightarrow> Discard | Some w \<Rightarrow> w)"

text \<open>
  \<open>fmt.Fprint*\<close> on the log writer: the text written so far is a list of chunks, one
  per call; the discarding writer keeps nothing. The code ignores the write's result.
\<close>

definition Fprint :: "Writer \<Rightarrow> string \<Rightarrow> string list \<Rightarrow> string list" where
  "Fprint w s out = (case w of Discard \<Rightarrow> out | Stream \<Rightarrow> out @ [s])"

definition slices_Contains :: "string list \<Rightarrow> string \<Rightarrow> bool" where
  "slices_Contains xs x = (x \<in> set xs)"

text \<open>
  The cluster behind \<open>rest.Config\<close>, over a world state \<open>'w\<close> that every remote call
  and every callback may read and change: whether the two clients can be built, the
  capability query, and the list operation \<open>dynClient.Resource(res).List\<close> with its
  \<open>Limit\<close> and \<open>Continue\<close> options.
\<close>

record ('o, 'w) cluster =
  NewDiscoveryClientForConfig :: "error option"
  NewForConfig :: "error option"
  ServerPreferredResources :: "'w \<Rightarrow> (error + APIResourceList list) \<times> 'w"
  List :: "GroupVersionResource \<Rightarrow> int \<Rightarrow> string \<Rightarrow> 'w \<Rightarrow> (error + 'o UnstructuredList) \<times> 'w"

type_synonym ('o, 'w) callback = "'o UnstructuredList \<Rightarrow> 'w \<Rightarrow> error option \<times> 'w"

text \<open>The variables of \<open>DiscoverObjects\<close> that its loops update.\<close>

record 'w run =
  errors :: "error list"
  logged :: "string list"
  world :: 'w

text \<open>
  The inner \<open>for { ... }\<close> loop of \<open>DiscoverObjects\<close> for one resource. It has no bound
  of its own, so the result is an option: \<open>None\<close> when the loop never leaves.
\<close>

partial_function (option) paginate ::
  "('o, 'w) cluster \<Rightarrow> ('o, 'w) callback \<Rightarrow> GroupVersionResource \<Rightarrow> int \<Rightarrow> string
   \<Rightarrow> 'w run \<Rightarrow> 'w run option" where
  "paginate cl cb res batchSize continueKey st =
     (case List cl res batchSize continueKey (world st) of
        (Inl err, w1) \<Rightarrow>
          Some (st\<lparr>errors := errors st @ [Wrapped (''failed to list '' @ gvr_String res) err],
                   world := w1\<rparr>)
      | (Inr l, w1) \<Rightarrow>
          (case cb l w1 of
             (r, w2) \<Rightarrow>
               (let errors' = (case r of
                                 Some err \<Rightarrow> errors st @ [Wrapped (''failed to dump '' @ gvr_String res) err]
                               | None \<Rightarrow> errors st);
                    st' = st\<lparr>errors := errors', world := w2\<rparr>
                in if Continue l = [] then Some st'
                   else paginate cl cb res batchSize (Continue l) st')))"

declare paginate.simps [code]

text \<open>The loop over \<open>re.APIResources\<close> for one group/version.\<close>

fun list_resources ::
  "('o, 'w) cluster \<Rightarrow> ('o, 'w) callback \<Rightarrow> int \<Rightarrow> Writer \<Rightarrow> string \<Rightarrow> APIResource list
   \<Rightarrow> 'w run \<Rightarrow> 'w run option" where
  "list_resources cl cb batchSize logWriter gvs [] st = Some st"
| "list_resources cl cb batchSize logWriter gvs (r # rs) st =
     (case groupVersionFromString gvs of
        None \<Rightarrow> None
      | Some gv \<Rightarrow>
          (let res = WithResource gv (Name r) in
           if \<not> slices_Contains (Verbs r) ''list''
           then list_resources cl cb batchSize logWriter gvs rs
                  (st\<lparr>logged := Fprint logWriter
                                   (''skipping '' @ gvr_String res @ '': no list verb\<newline>'')
                                   (logged st)\<rparr>)
           else (case paginate cl cb res batchSize [] st of
                   None \<Rightarrow> None
                 | Some st' \<Rightarrow> list_resources cl cb batchSize logWriter gvs rs st')))"

text \<open>The loop over \<open>sprl\<close>.\<close>

fun list_groups ::
  "('o, 'w) cluster \<Rightarrow> ('o, 'w) callback \<Rightarrow> int \<Rightarrow> Writer \<Rightarrow> APIResourceList list
   \<Rightarrow> 'w run \<Rightarrow> 'w run option" where
  "list_groups cl cb batchSize logWriter [] st = Some st"
| "list_groups cl cb batchSize logWriter (re # res) st =
     (case list_resources cl cb batchSize logWriter (GroupVersionStr re) (APIResources re) st of
        None \<Rightarrow> None
      | Some st' \<Rightarrow> list_groups cl cb batchSize logWriter res st')"

text \<open>The listing of the discovered resources written before the dump starts.\<close>

fun print_discovered :: "Writer \<Rightarrow> APIResourceList list \<Rightarrow> string list \<Rightarrow> string list" where
  "print_discovered w [] out = out"
| "print_discovered w (re # res) out =
     print_discovered w res
       (foldl (\<lambda>acc r. Fprint w (''   '' @ Kind r @ ''\<newline>'') acc)
              (Fprint w (GroupVersionStr re @ ''\<newline>'') out)
              (APIResources re))"

text \<open>
  \<open>DiscoverObjects\<close>: the returned error (\<open>None\<close> is nil), the log and the world it
  leaves; \<open>None\<close> as a whole when it does not return.
\<close>

definition DiscoverObjects ::
  "('o, 'w) cluster \<Rightarrow> ('o, 'w) callback \<Rightarrow> DiscoveryOptions \<Rightarrow> 'w
   \<Rightarrow> (error option \<times> string list \<times> 'w) option" where
  "DiscoverObjects cl cb opts w0 =
     (let batchSize = GetBatchSize opts;
          logWriter = GetLogWriter opts
      in case NewDiscoveryClientForConfig cl of
           Some err \<Rightarrow> Some (Some (Wrapped ''failed to create discovery client'' err), [], w0)
         | None \<Rightarrow>
             (case NewForConfig cl of
                Some err \<Rightarrow> Some (Some (Wrapped ''failed to create dynamic client'' err), [], w0)
              | None \<Rightarrow>
                  (case ServerPreferredResources cl w0 of
                     (Inl err, w1) \<Rightarrow>
                       Some (Some (Wrapped ''failed to get server preferred resources'' err), [], w1)
                   | (Inr sprl, w1) \<Rightarrow>
                       (case list_groups cl cb batchSize logWriter sprl
                               \<lparr>errors = [],
                                logged = print_discovered logWriter sprl
                                           (Fprint logWriter ''Discovered resources:\<newline>'' []),
                                world = w1\<rparr> of
                          None \<Rightarrow> None
                        | Some st \<Rightarrow> Some (Combine (errors st), logged st, world st)))))"

section \<open>Observing a run: the calls made\<close>

text \<open>
  To speak about which remote calls and which callback invocations a run makes, any
  cluster and callback over a world \<open>'w\<close> are run over the world \<open>call list \<times> 'w\<close>:
  each call is appended, with its arguments and its result, to the list, and otherwise
  acts as before.
\<close>

datatype 'o call =
    ListCall GroupVersionResource int string "error + 'o UnstructuredList"
  | DumpCall "'o UnstructuredList" "error option"

definition observed :: "('o, 'w) cluster \<Rightarrow> ('o, 'o call list \<times> 'w) cluster" where
  "observed cl =
     \<lparr>NewDiscoveryClientForConfig = NewDiscoveryClientForConfig cl,
      NewForConfig = NewForConfig cl,
      ServerPreferredResources =
        (\<lambda>(tr, w). case ServerPreferredResources cl w of (r, w') \<Rightarrow> (r, (tr, w'))),
      List =
        (\<lambda>res limit key (tr, w).
           case List cl res limit key w of
             (r, w') \<Rightarrow> (r, (tr @ [ListCall res limit key r], w')))\<rparr>"

definition observed_cb :: "('o, 'w) callback \<Rightarrow> ('o, 'o call list \<times> 'w) callback" where
  "observed_cb cb = (\<lambda>l (tr, w). case cb l w of (r, w') \<Rightarrow> (r, (tr @ [DumpCall l r], w')))"

text \<open>
  The calls one pagination of resource \<open>res\<close> with limit \<open>B\<close> may make from cursor
  \<open>key\<close>: a failed list call ends it; a successful one is followed by the callback on
  the page it returned, and then by the pagination from the returned cursor unless that
  cursor is empty, whatever the callback returned.
\<close>

fun pagination_calls :: "GroupVersionResource \<Rightarrow> int \<Rightarrow> string \<Rightarrow> 'o call list \<Rightarrow> bool" where
  "pagination_calls res B key (ListCall res' B' key' (Inl e) # cs) =
     (res' = res \<and> B' = B \<and> key' = key \<and> cs = [])"
| "pagination_calls res B key (ListCall res' B' key' (Inr pg) # DumpCall pg' r # cs) =
     (res' = res \<and> B' = B \<and> key' = key \<and> pg' = pg
      \<and> (if Continue pg = [] then cs = [] else pagination_calls res B (Continue pg) cs))"
| "pagination_calls res B key cs = False"

text \<open>The errors that the failed calls among \<open>cs\<close> stand for, in call order.\<close>

fun call_errors :: "'o call list \<Rightarrow> error list" where
  "call_errors [] = []"
| "call_errors (ListCall res B key (Inl e) # cs) =
     Wrapped (''failed to list '' @ gvr_String res) e # call_errors cs"
| "call_errors (ListCall res B key (Inr pg) # DumpCall pg' (Some e) # cs) =
     Wrapped (''failed to dump '' @ gvr_String res) e # call_errors cs"
| "call_errors (c # cs) = call_errors cs"

fun is_list_call :: "'o call \<Rightarrow> bool" where
  "is_list_call (ListCall res B key r) = True"
| "is_list_call (DumpCall pg r) = False"

fun returned_pages :: "'o call list \<Rightarrow> 'o UnstructuredList list" where
  "returned_pages [] = []"
| "returned_pages (ListCall res B key (Inr pg) # cs) = pg # returned_pages cs"
| "returned_pages (c # cs) = returned_pages cs"

fun dumped_pages :: "'o call list \<Rightarrow> 'o UnstructuredList list" where
  "dumped_pages [] = []"
| "dumped_pages (DumpCall pg r # cs) = pg # dumped_pages cs"
| "dumped_pages (c # cs) = dumped_pages cs"

text \<open>
  The resources of a discovery result that carry the \<open>list\<close> verb, in the order of the
  result, and the calls a run over them may make: one pagination from the empty cursor
  for each, one after the other.
\<close>

definition listable :: "string \<Rightarrow> APIResource list \<Rightarrow> GroupVersionResource list" where
  "listable gvs rs =
     (case groupVersionFromString gvs of
        None \<Rightarrow> []
      | Some gv \<Rightarrow> map (\<lambda>r. WithResource gv (Name r)) (filter (\<lambda>r. ''list'' \<in> set (Verbs r)) rs))"

definition listable_all :: "APIResourceList list \<Rightarrow> GroupVersionResource list" where
  "listable_all sprl = concat (map (\<lambda>re. listable (GroupVersionStr re) (APIResources re)) sprl)"

fun resources_calls :: "GroupVersionResource list \<Rightarrow> int \<Rightarrow> 'o call list \<Rightarrow> bool" where
  "resources_calls [] B cs = (cs = [])"
| "resources_calls (res # rest) B cs =
     (\<exists>n \<in> {0..length cs}. pagination_calls res B [] (take n cs) \<and> resources_calls rest B (drop n cs))"

fun is_failed_call :: "'o call \<Rightarrow> bool" where
  "is_failed_call (ListCall res B key r) = (case r of Inl e \<Rightarrow> True | Inr pg \<Rightarrow> False)"
| "is_failed_call (DumpCall pg r) = (r \<noteq> None)"

fun call_resource :: "'o call \<Rightarrow> GroupVersionResource option" where
  "call_resource (ListCall res B key r) = Some res"
| "call_resource (DumpCall pg r) = None"

text \<open>
  The skip notice of a resource, the notices of a discovery result (one for each
  resource without the \<open>list\<close> verb, in the order of the result), and writing a
  sequence of texts to the log writer.
\<close>

definition skip_notice :: "string \<Rightarrow> APIResource \<Rightarrow> string" where
  "skip_notice gvs r =
     (case groupVersionFromString gvs of
        None \<Rightarrow> []
      | Some gv \<Rightarrow> ''skipping '' @ gvr_String (WithResource gv (Name r)) @ '': no list verb\<newline>'')"

definition skip_notices :: "APIResourceList list \<Rightarrow> string list" where
  "skip_notices sprl =
     concat (map (\<lambda>re. map (skip_notice (GroupVersionStr re))
                          (filter (\<lambda>r. ''list'' \<notin> set (Verbs r)) (APIResources re))) sprl)"

definition emit :: "Writer \<Rightarrow> string list \<Rightarrow> string list \<Rightarrow> string list" where
  "emit w texts out = foldl (\<lambda>acc t. Fprint w t acc) out texts"

section \<open>A remote collection served in chunks\<close>

text \<open>
  A list operation that serves a fixed collection the way the API server does: at most
  \<open>limit\<close> items from the position the cursor names, and a non-empty cursor exactly when
  items remain. The cursor for position \<open>n\<close> is \<open>n\<close> copies of one character, so the
  empty cursor is the start.
\<close>

definition cursor :: "nat \<Rightarrow> string" where
  "cursor n = replicate n CHR ''c''"

definition chunk :: "'o list \<Rightarrow> int \<Rightarrow> nat \<Rightarrow> 'o UnstructuredList" where
  "chunk coll limit off =
     \<lparr>Items = take (nat limit) (drop off coll),
      Continue = (if off + nat limit < length coll then cursor (off + nat limit) else [])\<rparr>"

definition chunked_List ::
  "'o list \<Rightarrow> GroupVersionResource \<Rightarrow> int \<Rightarrow> string \<Rightarrow> 'w \<Rightarrow> (error + 'o UnstructuredList) \<times> 'w" where
  "chunked_List coll res limit key w = (Inr (chunk coll limit (length key)), w)"

definition chunked_cluster :: "'o list \<Rightarrow> ('o, 'w) cluster" where
  "chunked_cluster coll =
     \<lparr>NewDiscoveryClientForConfig = None, NewForConfig = None,
      ServerPreferredResources = (\<lambda>w. (Inr [], w)),
      List = chunked_List coll\<rparr>"

text \<open>The positions at which the chunks of a collection of \<open>n\<close> items start.\<close>

function chunk_starts :: "nat \<Rightarrow> nat \<Rightarrow> nat \<Rightarrow> nat list" where
  "chunk_starts n b off =
     (if 0 < b \<and> off + b < n then off # chunk_starts n b (off + b) else [off])"
  by pat_completeness auto
termination
  by (relation "measure (\<lambda>(n, b, off). n - off)") auto

declare chunk_starts.simps [simp del]

section \<open>The file system under the directory sink\<close>

text \<open>
  The operating system as the sink sees it. Directories are a set of paths; the open
  descriptors are a table from handle to path; \<open>written\<close> is the sequence of completed
  writes, each with the path of the handle it went through. Whether an operation fails
  is decided by the environment: \<open>faults\<close> says, for an operation and the time it is
  made at (\<open>clock\<close> counts the operations), whether it fails. A failed write is not
  recorded in \<open>written\<close>, whatever part of it reached the file.
\<close>

type_synonym path = string
type_synonym bytes = string

datatype fsop = OpMkdirAll path | OpCreate path | OpWrite path | OpClose path

type_synonym faults = "fsop \<Rightarrow> nat \<Rightarrow> bool"

record filesys =
  dirs :: "path set"
  fds :: "(nat \<times> path) list"
  next_fd :: nat
  clock :: nat
  written :: "(path \<times> bytes) list"

definition tick :: "filesys \<Rightarrow> filesys" where
  "tick fs = fs\<lparr>clock := Suc (clock fs)\<rparr>"

text \<open>
  \<open>filepath.Clean\<close> for slash-separated paths: empty and \<open>.\<close> elements are dropped, a
  \<open>..\<close> element removes the element before it (at the start it is kept in a relative
  path and dropped in a rooted one), and the empty result is \<open>.\<close>. \<open>st\<close> holds the
  elements kept so far, the last one first.
\<close>

fun clean_elems :: "bool \<Rightarrow> string list \<Rightarrow> string list \<Rightarrow> string list" where
  "clean_elems rooted [] st = rev st"
| "clean_elems rooted (e # es) st =
     (if e = [] \<or> e = ''.'' then clean_elems rooted es st
      else if e = ''..'' then
        (if st \<noteq> [] \<and> hd st \<noteq> ''..'' then clean_elems rooted es (tl st)
         else if \<not> rooted then clean_elems rooted es (e # st)
         else clean_elems rooted es st)
      else clean_elems rooted es (e # st))"

fun join_slash :: "string list \<Rightarrow> string" where
  "join_slash [] = []"
| "join_slash [e] = e"
| "join_slash (e # es) = e @ ''/'' @ join_slash es"

definition filepath_Clean :: "path \<Rightarrow> path" where
  "filepath_Clean p =
     (if p = [] then ''.''
      else (let rooted = (hd p = CHR ''/'');
                body = join_slash (clean_elems rooted (strings_Split p CHR ''/'') [])
            in if rooted then CHR ''/'' # body
               else if body = [] then ''.'' else body))"

text \<open>
  \<open>filepath.Dir\<close>: the path up to and including its last separator, cleaned.
\<close>

definition filepath_Dir :: "path \<Rightarrow> path" where
  "filepath_Dir p = filepath_Clean (rev (dropWhile (\<lambda>c. c \<noteq> CHR ''/'') (rev p)))"

text \<open>A directory and all the directories above it, which \<open>os.MkdirAll\<close> creates.\<close>

definition parents :: "path \<Rightarrow> path set" where
  "parents d =
     set (map (\<lambda>n. take n d)
            (filter (\<lambda>n. n = length d \<or> d ! n = CHR ''/'') [1..<Suc (length d)]))"

definition os_MkdirAll :: "faults \<Rightarrow> path \<Rightarrow> filesys \<Rightarrow> error option \<times> filesys" where
  "os_MkdirAll flt d fs =
     (if flt (OpMkdirAll d) (clock fs) then (Some (Errno ''mkdir''), tick fs)
      else (None, tick (fs\<lparr>dirs := dirs fs \<union> parents d\<rparr>)))"

text \<open>
  \<open>os.Create\<close> needs the directory of the path to exist and returns a fresh handle. It
  truncates a file that exists already; \<open>written\<close> is the sequence of the writes made,
  not the content of the files, and is not changed by it.
\<close>

definition os_Create :: "faults \<Rightarrow> path \<Rightarrow> filesys \<Rightarrow> (error + nat) \<times> filesys" where
  "os_Create flt p fs =
     (if flt (OpCreate p) (clock fs) \<or> filepath_Dir p \<notin> dirs fs
      then (Inl (Errno ''open''), tick fs)
      else (Inr (next_fd fs),
            tick (fs\<lparr>fds := fds fs @ [(next_fd fs, p)], next_fd := Suc (next_fd fs)\<rparr>)))"

definition file_Write :: "faults \<Rightarrow> nat \<Rightarrow> bytes \<Rightarrow> filesys \<Rightarrow> error option \<times> filesys" where
  "file_Write flt f b fs =
     (case map_of (fds fs) f of
        None \<Rightarrow> (Some (Errno ''file already closed''), tick fs)
      | Some p \<Rightarrow>
          (if flt (OpWrite p) (clock fs) then (Some (Errno ''write''), tick fs)
           else (None, tick (fs\<lparr>written := written fs @ [(p, b)]\<rparr>))))"

text \<open>Closing releases the descriptor even when the close reports an error.\<close>

definition file_Close :: "faults \<Rightarrow> nat \<Rightarrow> filesys \<Rightarrow> error option \<times> filesys" where
  "file_Close flt f fs =
     (case map_of (fds fs) f of
        None \<Rightarrow> (Some (Errno ''file already closed''), tick fs)
      | Some p \<Rightarrow>
          ((if flt (OpClose p) (clock fs) then Some (Errno ''close'') else None),
           tick (fs\<lparr>fds := filter (\<lambda>e. fst e \<noteq> f) (fds fs)\<rparr>)))"

section \<open>The directory sink\<close>

text \<open>
  An object of a page: what \<open>GetKind\<close> and \<open>GetNamespace\<close> read from it, and the rest
  of the document.
\<close>

record Unstructured =
  GetKind :: string
  GetNamespace :: string
  Object :: string

record dirDumper =
  dir :: string
  openFiles :: "path \<rightharpoonup> nat"
  sharedBuf :: bytes

text \<open>
  The \<open>%q\<close> verb (\<open>strconv.Quote\<close>): the string in double quotes, with the quote, the
  backslash and the control characters escaped. Bytes from \<open>0x80\<close> on are taken to
  encode printable characters and are copied.
\<close>

definition hex_digit :: "nat \<Rightarrow> char" where
  "hex_digit n = ''0123456789abcdef'' ! (n mod 16)"

definition quote_char :: "char \<Rightarrow> string" where
  "quote_char c =
     (if c = CHR 0x22 then [CHR 0x5C, CHR 0x22]
      else if c = CHR 0x5C then [CHR 0x5C, CHR 0x5C]
      else if c = CHR 0x07 then [CHR 0x5C, CHR ''a'']
      else if c = CHR 0x08 then [CHR 0x5C, CHR ''b'']
      else if c = CHR 0x0C then [CHR 0x5C, CHR ''f'']
      else if c = CHR 0x0A then [CHR 0x5C, CHR ''n'']
      else if c = CHR 0x0D then [CHR 0x5C, CHR ''r'']
      else if c = CHR 0x09 then [CHR 0x5C, CHR ''t'']
      else if c = CHR 0x0B then [CHR 0x5C, CHR ''v'']
      else if (of_char c :: nat) < 32 \<or> (of_char c :: nat) = 127
      then [CHR 0x5C, CHR ''x'', hex_digit ((of_char c :: nat) div 16), hex_digit (of_char c :: nat)]
      else [c])"

definition quoted :: "string \<Rightarrow> string" where
  "quoted s = [CHR 0x22] @ concat (map quote_char s) @ [CHR 0x22]"

definition newDirDumper :: "faults \<Rightarrow> string \<Rightarrow> filesys \<Rightarrow> (error + dirDumper) \<times> filesys" where
  "newDirDumper flt d fs =
     (case os_MkdirAll flt d fs of
        (Some err, fs') \<Rightarrow> (Inl (Wrapped (''failed to create directory '' @ quoted d) err), fs')
      | (None, fs') \<Rightarrow> (Inr \<lparr>dir = d, openFiles = Map.empty, sharedBuf = []\<rparr>, fs'))"

text \<open>The method \<open>file\<close> of the sink: the cached handle of a path, created on first use.\<close>

definition dirDumper_file :: "faults \<Rightarrow> dirDumper \<Rightarrow> path \<Rightarrow> filesys \<Rightarrow> (error + nat) \<times> dirDumper \<times> filesys" where
  "dirDumper_file flt d path fs =
     (case openFiles d path of
        Some f \<Rightarrow> (Inr f, d, fs)
      | None \<Rightarrow>
          (case os_MkdirAll flt (filepath_Dir path) fs of
             (Some err, fs1) \<Rightarrow>
               (Inl (Wrapped (''failed to create directory '' @ quoted (filepath_Dir path)) err), d, fs1)
           | (None, fs1) \<Rightarrow>
               (case os_Create flt path fs1 of
                  (Inl err, fs2) \<Rightarrow>
                    (Inl (Wrapped (''failed to create file '' @ quoted path) err), d, fs2)
                | (Inr f, fs2) \<Rightarrow>
                    (Inr f, d\<lparr>openFiles := (openFiles d)(path \<mapsto> f)\<rparr>, fs2))))"

definition writeToFile ::
  "faults \<Rightarrow> dirDumper \<Rightarrow> path \<Rightarrow> bytes \<Rightarrow> filesys \<Rightarrow> error option \<times> dirDumper \<times> filesys" where
  "writeToFile flt d path b fs =
     (case dirDumper_file flt d path fs of
        (Inl err, d1, fs1) \<Rightarrow> (Some (Wrapped ''failed to open file for copying'' err), d1, fs1)
      | (Inr f, d1, fs1) \<Rightarrow>
          (case file_Write flt f b fs1 of
             (Some err, fs2) \<Rightarrow> (Some (Wrapped ''failed to copy to file'' err), d1, fs2)
           | (None, fs2) \<Rightarrow> (None, d1, fs2)))"

text \<open>Appending an error to \<open>errs\<close> when there is one.\<close>

definition record_error :: "error option \<Rightarrow> error list \<Rightarrow> error list" where
  "record_error r errs = (case r of Some err \<Rightarrow> errs @ [err] | None \<Rightarrow> errs)"

text \<open>
  The loop of \<open>Dump\<close> over \<open>l.Items\<close>, with the JSON encoder as a parameter: \<open>Inr\<close> the
  bytes it writes into the buffer, \<open>Inl\<close> its error.
\<close>

fun Dump_loop ::
  "faults \<Rightarrow> (Unstructured \<Rightarrow> error + bytes) \<Rightarrow> Unstructured list \<Rightarrow> error list
   \<Rightarrow> dirDumper \<Rightarrow> filesys \<Rightarrow> error list \<times> dirDumper \<times> filesys" where
  "Dump_loop flt enc [] errs d fs = (errs, d, fs)"
| "Dump_loop flt enc (ob # obs) errs d fs =
     (case enc ob of
        Inl err \<Rightarrow>
          Dump_loop flt enc obs (errs @ [Wrapped ''failed to encode object'' err])
            (d\<lparr>sharedBuf := []\<rparr>) fs
      | Inr p \<Rightarrow>
          (case writeToFile flt (d\<lparr>sharedBuf := p\<rparr>)
                  (dir d @ ''/objects-'' @ GetKind ob @ ''.json'') p fs of
             (r1, d1, fs1) \<Rightarrow>
               if GetNamespace ob = [] then Dump_loop flt enc obs (record_error r1 errs) d1 fs1
               else
                 (case writeToFile flt d1
                         (dir d @ ''/split/'' @ GetNamespace ob @ ''/__all__.json'') p fs1 of
                    (r2, d2, fs2) \<Rightarrow>
                      (case writeToFile flt d2
                              (dir d @ ''/split/'' @ GetNamespace ob @ ''/'' @ GetKind ob @ ''.json'')
                              p fs2 of
                         (r3, d3, fs3) \<Rightarrow>
                           Dump_loop flt enc obs
                             (record_error r3 (record_error r2 (record_error r1 errs))) d3 fs3))))"

definition Dump ::
  "faults \<Rightarrow> (Unstructured \<Rightarrow> error + bytes) \<Rightarrow> Unstructured UnstructuredList
   \<Rightarrow> dirDumper \<Rightarrow> filesys \<Rightarrow> error option \<times> dirDumper \<times> filesys" where
  "Dump flt enc l d fs =
     (case Dump_loop flt enc (Items l) [] d fs of (errs, d', fs') \<Rightarrow> (Combine errs, d', fs'))"

text \<open>
  \<open>Close\<close>. Go visits the entries of a map in no fixed order; \<open>order\<close> is the order in
  which the keys are visited.
\<close>

fun Close_loop ::
  "faults \<Rightarrow> dirDumper \<Rightarrow> path list \<Rightarrow> error list \<Rightarrow> filesys \<Rightarrow> error list \<times> filesys" where
  "Close_loop flt d [] errs fs = (errs, fs)"
| "Close_loop flt d (p # ps) errs fs =
     (case openFiles d p of
        None \<Rightarrow> Close_loop flt d ps errs fs
      | Some f \<Rightarrow>
          (case file_Close flt f fs of
             (r, fs') \<Rightarrow> Close_loop flt d ps (record_error r errs) fs'))"

definition Close :: "faults \<Rightarrow> path list \<Rightarrow> dirDumper \<Rightarrow> filesys \<Rightarrow> error option \<times> filesys" where
  "Close flt order d fs =
     (case Close_loop flt d order [] fs of (errs, fs') \<Rightarrow> (Combine errs, fs'))"

section \<open>Observing the sink\<close>

text \<open>
  The destinations of a record, as the specification lists them, and the writes a page
  stands for: the serialized form of each record that can be encoded, once for each of
  its destinations.
\<close>

definition destinations :: "string \<Rightarrow> Unstructured \<Rightarrow> path list" where
  "destinations dr ob =
     (dr @ ''/objects-'' @ GetKind ob @ ''.json'')
     # (if GetNamespace ob = [] then []
        else [dr @ ''/split/'' @ GetNamespace ob @ ''/__all__.json'',
              dr @ ''/split/'' @ GetNamespace ob @ ''/'' @ GetKind ob @ ''.json''])"

definition deliveries :: "string \<Rightarrow> (Unstructured \<Rightarrow> error + bytes) \<Rightarrow> Unstructured \<Rightarrow> (path \<times> bytes) list" where
  "deliveries dr enc ob =
     (case enc ob of Inl err \<Rightarrow> [] | Inr p \<Rightarrow> map (\<lambda>q. (q, p)) (destinations dr ob))"

text \<open>
  Writing the same bytes to each path of a list, one after the other: every path is
  attempted, whatever became of the earlier ones, and each failure is appended to the
  errors.
\<close>

fun write_all ::
  "faults \<Rightarrow> path list \<Rightarrow> bytes \<Rightarrow> error list \<Rightarrow> dirDumper \<Rightarrow> filesys
   \<Rightarrow> error list \<times> dirDumper \<times> filesys" where
  "write_all flt [] b errs d fs = (errs, d, fs)"
| "write_all flt (q # qs) b errs d fs =
     (case writeToFile flt d q b fs of
        (r, d1, fs1) \<Rightarrow> write_all flt qs b (record_error r errs) d1 fs1)"

text \<open>The errors of the records of a page that cannot be encoded.\<close>

definition encode_errors :: "(Unstructured \<Rightarrow> error + bytes) \<Rightarrow> Unstructured list \<Rightarrow> error list" where
  "encode_errors enc obs =
     concat (map (\<lambda>ob. case enc ob of
                          Inl err \<Rightarrow> [Wrapped ''failed to encode object'' err]
                        | Inr p \<Rightarrow> []) obs)"

text \<open>
  \<open>multierr.Errors\<close>: the errors a combined error stands for.
\<close>

definition Errors :: "error option \<Rightarrow> error list" where
  "Errors r = (case r of None \<Rightarrow> [] | Some e \<Rightarrow> flatten_error e)"

text \<open>
  The errors of closing the files of the paths \<open>ps\<close> one after the other from time
  \<open>t\<close> on.
\<close>

fun close_failures :: "faults \<Rightarrow> nat \<Rightarrow> path list \<Rightarrow> error list" where
  "close_failures flt t [] = []"
| "close_failures flt t (p # ps) =
     (if flt (OpClose p) t then [Errno ''close''] else []) @ close_failures flt (Suc t) ps"

definition handles_on :: "filesys \<Rightarrow> path \<Rightarrow> nat list" where
  "handles_on fs p = map fst (filter (\<lambda>e. snd e = p) (fds fs))"

text \<open>
  The sink owns the open descriptors: each is the cached handle of its path, and each
  cached handle is open on its path.
\<close>

definition cache_inv :: "dirDumper \<Rightarrow> filesys \<Rightarrow> bool" where
  "cache_inv d fs \<longleftrightarrow>
     distinct (map fst (fds fs))
     \<and> (\<forall>e \<in> set (fds fs). fst e < next_fd fs \<and> openFiles d (snd e) = Some (fst e))
     \<and> (\<forall>p f. openFiles d p = Some f \<longrightarrow> (f, p) \<in> set (fds fs))"

definition no_faults :: faults where
  "no_faults op t = False"

text \<open>A destination path on which no operation ever fails.\<close>

definition sound_path :: "faults \<Rightarrow> path \<Rightarrow> bool" where
  "sound_path flt q \<longleftrightarrow>
     (\<forall>t. \<not> flt (OpMkdirAll (filepath_Dir q)) t \<and> \<not> flt (OpCreate q) t \<and> \<not> flt (OpWrite q) t)"

section \<open>A small cluster for concrete runs\<close>

text \<open>
  A cluster with three resources: \<open>pods\<close> (listable, two pages), \<open>bindings\<close> (no
  \<open>list\<close> verb) and \<open>deployments\<close> (listable, but its list call fails); and a callback
  that fails on every page holding the object \<open>a\<close>.
\<close>

definition demo_sprl :: "APIResourceList list" where
  "demo_sprl =
     [\<lparr>GroupVersionStr = ''v1'',
       APIResources = [\<lparr>Name = ''pods'', Kind = ''Pod'', Verbs = [''get'', ''list'']\<rparr>,
                       \<lparr>Name = ''bindings'', Kind = ''Binding'', Verbs = [''create'']\<rparr>]\<rparr>,
      \<lparr>GroupVersionStr = ''apps/v1'',
       APIResources = [\<lparr>Name = ''deployments'', Kind = ''Deployment'', Verbs = [''list'']\<rparr>]\<rparr>]"

definition demo_List ::
  "GroupVersionResource \<Rightarrow> int \<Rightarrow> string \<Rightarrow> unit \<Rightarrow> (error + string UnstructuredList) \<times> unit" where
  "demo_List res limit key w =
     (if gvrResource res = ''pods''
      then (if key = [] then (Inr \<lparr>Items = [''a'', ''b''], Continue = ''k1''\<rparr>, w)
            else (Inr \<lparr>Items = [''c''], Continue = []\<rparr>, w))
      else (Inl (Errno ''timeout''), w))"

definition demo_cluster :: "(string, unit) cluster" where
  "demo_cluster =
     \<lparr>NewDiscoveryClientForConfig = None, NewForConfig = None,
      ServerPreferredResources = (\<lambda>w. (Inr demo_sprl, w)),
      List = demo_List\<rparr>"

definition demo_cb :: "(string, unit) callback" where
  "demo_cb l w = (if ''a'' \<in> set (Items l) then (Some (Errno ''disk full''), w) else (None, w))"

definition demo_opts :: DiscoveryOptions where
  "demo_opts = \<lparr>BatchSize = 2, LogWriter = Some Stream\<rparr>"

section \<open>A small sink for concrete runs\<close>

text \<open>
  A sink on the directory \<open>out\<close> with an empty cache, a file system in which \<open>out\<close>
  exists and nothing is open, an encoder that rejects the document \<open>bad\<close>, and an
  environment in which exactly the writes to \<open>out/split/ns1/Pod.json\<close> fail; and the
  same sink after a first write to \<open>out/objects-Pod.json\<close>.
\<close>

definition demo_dumper :: dirDumper where
  "demo_dumper = \<lparr>dir = ''out'', openFiles = Map.empty, sharedBuf = []\<rparr>"

definition demo_fs :: filesys where
  "demo_fs = \<lparr>dirs = {''out''}, fds = [], next_fd = 3, clock = 0, written = []\<rparr>"

definition demo_enc :: "Unstructured \<Rightarrow> error + bytes" where
  "demo_enc ob =
     (if Object ob = ''bad'' then Inl (Errno ''json: unsupported value'')
      else Inr (Object ob @ ''\<newline>''))"

definition demo_faults :: faults where
  "demo_faults op t = (op = OpWrite ''out/split/ns1/Pod.json'')"

definition demo_pod :: Unstructured where
  "demo_pod = \<lparr>GetKind = ''Pod'', GetNamespace = ''ns1'', Object = ''pod-a''\<rparr>"

definition demo_node :: Unstructured where
  "demo_node = \<lparr>GetKind = ''Node'', GetNamespace = [], Object = ''node-a''\<rparr>"

definition demo_bad :: Unstructured where
  "demo_bad = \<lparr>GetKind = ''Pod'', GetNamespace = ''ns1'', Object = ''bad''\<rparr>"

definition demo_all :: Unstructured where
  "demo_all = \<lparr>GetKind = ''__all__'', GetNamespace = ''ns1'', Object = ''x''\<rparr>"

definition demo_open_dumper :: dirDumper where
  "demo_open_dumper = \<lparr>dir = ''out'', openFiles = [''out/objects-Pod.json'' \<mapsto> 3], sharedBuf = []\<rparr>"

definition demo_open_fs :: filesys where
  "demo_open_fs =
     \<lparr>dirs = {''out''}, fds = [(3, ''out/objects-Pod.json'')], next_fd = 4, clock = 5,
      written = [(''out/objects-Pod.json'', ''pod-a\<newline>'')]\<rparr>"

definition demo_page :: "Unstructured list \<Rightarrow> Unstructured UnstructuredList" where
  "demo_page obs = \<lparr>Items = obs, Continue = []\<rparr>"

section \<open>Properties of the parser\<close>

lemma strings_Split_nonempty: "strings_Split s sep \<noteq> []"
  by (induction s) (auto split: list.splits)

lemma strings_Split_no_sep: "sep \<notin> set s \<Longrightarrow> strings_Split s sep = [s]"
  by (induction s) auto

lemma strings_Split_append:
  "sep \<notin> set x \<Longrightarrow> strings_Split (x @ sep # rest) sep = x # strings_Split rest sep"
  by (induction x) auto

lemma groupVersionFromString_total: "groupVersionFromString s \<noteq> None"
proof -
  have "length (strings_Split s CHR ''/'') \<noteq> 0"
    using strings_Split_nonempty [of s "CHR ''/''"] by simp
  then have "length (strings_Split s CHR ''/'') = 1 \<or> \<not> length (strings_Split s CHR ''/'') < 2"
    by arith
  then show ?thesis
    by (auto simp: groupVersionFromString_def Let_def)
qed

lemma groupVersionFromString_first_two:
  assumes "CHR ''/'' \<notin> set x"
  shows "groupVersionFromString (x @ CHR ''/'' # rest)
         = Some \<lparr>Group = x, Version = hd (strings_Split rest CHR ''/'')\<rparr>"
proof -
  obtain p ps where ps: "strings_Split rest CHR ''/'' = p # ps"
    using strings_Split_nonempty [of rest "CHR ''/''"] by (cases "strings_Split rest CHR ''/''") auto
  show ?thesis
    using assms ps by (simp add: groupVersionFromString_def strings_Split_append)
qed

text \<open>
  Claim C8. A string without a slash is a bare version with the empty group; a string
  \<open>X/Y\<close> with no slash in \<open>X\<close> or \<open>Y\<close> is group \<open>X\<close>, version \<open>Y\<close>; so
  \<open>apps/v1\<close> gives group \<open>apps\<close>, version \<open>v1\<close> and \<open>v1\<close> gives the empty group and
  version \<open>v1\<close>. No other shape is treated specially: the function has no error
  result and no third branch, a string with further slashes simply yields its first two
  segments.
\<close>

theorem groupVersionFromString_shapes:
  "(CHR ''/'' \<notin> set v \<longrightarrow> groupVersionFromString v = Some \<lparr>Group = [], Version = v\<rparr>)
   \<and> (CHR ''/'' \<notin> set x \<and> CHR ''/'' \<notin> set y \<longrightarrow>
        groupVersionFromString (x @ ''/'' @ y) = Some \<lparr>Group = x, Version = y\<rparr>)
   \<and> groupVersionFromString ''apps/v1'' = Some \<lparr>Group = ''apps'', Version = ''v1''\<rparr>
   \<and> groupVersionFromString ''v1'' = Some \<lparr>Group = [], Version = ''v1''\<rparr>
   \<and> (CHR ''/'' \<notin> set x \<and> CHR ''/'' \<notin> set y \<longrightarrow>
        groupVersionFromString (x @ ''/'' @ y @ ''/'' @ rest) = Some \<lparr>Group = x, Version = y\<rparr>)
   \<and> groupVersionFromString s \<noteq> None"
proof -
  have one: "CHR ''/'' \<notin> set v \<Longrightarrow> groupVersionFromString v = Some \<lparr>Group = [], Version = v\<rparr>" for v
    by (simp add: groupVersionFromString_def strings_Split_no_sep)
  have two: "groupVersionFromString (x @ ''/'' @ y) = Some \<lparr>Group = x, Version = y\<rparr>"
    if "CHR ''/'' \<notin> set x" "CHR ''/'' \<notin> set y"
    using that groupVersionFromString_first_two [of x y] by (simp add: strings_Split_no_sep)
  have more: "groupVersionFromString (x @ ''/'' @ y @ ''/'' @ rest) = Some \<lparr>Group = x, Version = y\<rparr>"
    if "CHR ''/'' \<notin> set x" "CHR ''/'' \<notin> set y"
    using that groupVersionFromString_first_two [of x "y @ ''/'' @ rest"]
    by (simp add: strings_Split_append)
  have ex1: "groupVersionFromString ''apps/v1'' = Some \<lparr>Group = ''apps'', Version = ''v1''\<rparr>"
    by (simp add: groupVersionFromString_def)
  have ex2: "groupVersionFromString ''v1'' = Some \<lparr>Group = [], Version = ''v1''\<rparr>"
    by (simp add: groupVersionFromString_def)
  show ?thesis
    using one two more ex1 ex2 groupVersionFromString_total by blast
qed

theorem groupVersionFromString_shapes_witness:
  "CHR ''/'' \<notin> set ''v1beta1''
   \<and> groupVersionFromString ''v1beta1'' = Some \<lparr>Group = [], Version = ''v1beta1''\<rparr>
   \<and> CHR ''/'' \<notin> set ''batch'' \<and> CHR ''/'' \<notin> set ''v1''
   \<and> groupVersionFromString ''batch/v1'' = Some \<lparr>Group = ''batch'', Version = ''v1''\<rparr>
   \<and> groupVersionFromString ''batch/v1/x'' = Some \<lparr>Group = ''batch'', Version = ''v1''\<rparr>"
proof -
  have a: "CHR ''/'' \<notin> set ''v1beta1''" by simp
  have b: "CHR ''/'' \<notin> set ''batch''" by simp
  have c: "CHR ''/'' \<notin> set ''v1''" by simp
  show ?thesis
    using a b c
      groupVersionFromString_shapes [of "''v1beta1''" "''batch''" "''v1''" "''x''" "[]"]
    by simp
qed


section \<open>The calls of one pagination\<close>

lemma List_observed:
  "List (observed cl) res limit key (tr, w) =
     (case List cl res limit key w of (r, w') \<Rightarrow> (r, (tr @ [ListCall res limit key r], w')))"
  by (simp add: observed_def)

lemma observed_cb_apply:
  "observed_cb cb l (tr, w) = (case cb l w of (r, w') \<Rightarrow> (r, (tr @ [DumpCall l r], w')))"
  by (simp add: observed_cb_def)

lemma paginate_calls_aux:
  "paginate cl' cb' res B key st = Some st' \<Longrightarrow> cl' = observed cl \<Longrightarrow> cb' = observed_cb cb \<Longrightarrow>
   \<exists>cs. fst (world st') = fst (world st) @ cs \<and> pagination_calls res B key cs
      \<and> errors st' = errors st @ call_errors cs \<and> logged st' = logged st"
proof (induction rule: paginate.raw_induct [rotated 1, consumes 1, case_names step])
  case (step pag cl' cb' res B key st st')
  note body0 = step(2-)
  obtain tr w where w: "world st = (tr, w)" by (cases "world st")
  obtain r w1 where l: "List cl res B key w = (r, w1)" by (cases "List cl res B key w")
  show ?case
  proof (cases r)
    case (Inl e)
    with body0 w l have "st' = st\<lparr>errors := errors st @ [Wrapped (''failed to list '' @ gvr_String res) e],
                   world := (tr @ [ListCall res B key (Inl e)], w1)\<rparr>"
      by (simp add: List_observed)
    then show ?thesis using w
      by (intro exI [of _ "[ListCall res B key (Inl e)]"]) simp
  next
    case (Inr pg)
    obtain d w2 where c: "cb pg w1 = (d, w2)" by (cases "cb pg w1")
    define st1 where "st1 = st\<lparr>errors := (case d of Some err \<Rightarrow> errors st @ [Wrapped (''failed to dump '' @ gvr_String res) err]
                               | None \<Rightarrow> errors st), world := (tr @ [ListCall res B key (Inr pg), DumpCall pg d], w2)\<rparr>"
    have body: "(if Continue pg = [] then Some st1 else pag (observed cl) (observed_cb cb) res B (Continue pg) st1) = Some st'"
      using body0 w l c Inr by (simp add: List_observed observed_cb_apply st1_def Let_def split: if_splits)
    have ce: "call_errors (ListCall res B key (Inr pg) # DumpCall pg d # cs)
              = (case d of Some err \<Rightarrow> [Wrapped (''failed to dump '' @ gvr_String res) err] | None \<Rightarrow> []) @ call_errors cs" for cs
      by (cases d) simp_all
    show ?thesis
    proof (cases "Continue pg = []")
      case True
      with body have "st' = st1" by simp
      then show ?thesis using w True ce [of "[]"]
        by (intro exI [of _ "[ListCall res B key (Inr pg), DumpCall pg d]"])
           (simp add: st1_def split: option.splits)
    next
      case False
      with body have "pag (observed cl) (observed_cb cb) res B (Continue pg) st1 = Some st'" by simp
      then have "\<exists>cs. fst (world st') = fst (world st1) @ cs \<and>
          pagination_calls res B (Continue pg) cs \<and>
          errors st' = errors st1 @ call_errors cs \<and> logged st' = logged st1"
        using step(1) step(3) step(4) by blast
      then obtain cs where cs: "fst (world st') = fst (world st1) @ cs"
        "pagination_calls res B (Continue pg) cs" "errors st' = errors st1 @ call_errors cs"
        "logged st' = logged st1" by auto
      show ?thesis using w False cs ce [of cs]
        by (intro exI [of _ "ListCall res B key (Inr pg) # DumpCall pg d # cs"])
           (simp add: st1_def split: option.splits)
    qed
  qed
qed

lemma pagination_calls_dumped:
  "pagination_calls res B key cs \<Longrightarrow> dumped_pages cs = returned_pages cs"
  by (induction res B key cs rule: pagination_calls.induct) (auto split: if_splits)

section \<open>The calls of a whole run\<close>

lemma paginate_calls:
  assumes "paginate (observed cl) (observed_cb cb) res B key st = Some st'"
  shows "\<exists>cs. fst (world st') = fst (world st) @ cs \<and> pagination_calls res B key cs
      \<and> errors st' = errors st @ call_errors cs \<and> logged st' = logged st"
  using paginate_calls_aux [OF assms refl refl] .

lemma call_errors_pagination_append:
  "pagination_calls res B key cs \<Longrightarrow> call_errors (cs @ ds) = call_errors cs @ call_errors ds"
proof (induction res B key cs rule: pagination_calls.induct)
  case (2 res B key res' B' key' pg pg' r cs)
  then show ?case by (cases r) (auto split: if_splits)
qed auto

lemma resources_calls_Cons_iff:
  "resources_calls (res # rest) B cs
   \<longleftrightarrow> (\<exists>cs1 cs2. cs = cs1 @ cs2 \<and> pagination_calls res B [] cs1 \<and> resources_calls rest B cs2)"
proof
  assume "resources_calls (res # rest) B cs"
  then obtain n where "pagination_calls res B [] (take n cs)" "resources_calls rest B (drop n cs)"
    by auto
  then show "\<exists>cs1 cs2. cs = cs1 @ cs2 \<and> pagination_calls res B [] cs1 \<and> resources_calls rest B cs2"
    by (intro exI [of _ "take n cs"] exI [of _ "drop n cs"]) simp
next
  assume "\<exists>cs1 cs2. cs = cs1 @ cs2 \<and> pagination_calls res B [] cs1 \<and> resources_calls rest B cs2"
  then obtain cs1 cs2 where "cs = cs1 @ cs2" "pagination_calls res B [] cs1" "resources_calls rest B cs2"
    by auto
  then show "resources_calls (res # rest) B cs"
    by (auto intro!: bexI [of _ "length cs1"])
qed

lemma resources_calls_append:
  "resources_calls xs B cs1 \<Longrightarrow> resources_calls ys B cs2 \<Longrightarrow> resources_calls (xs @ ys) B (cs1 @ cs2)"
proof (induction xs arbitrary: cs1)
  case Nil
  then show ?case by simp
next
  case (Cons x xs)
  from Cons.prems(1) obtain a b where n: "cs1 = a @ b" "pagination_calls x B [] a"
     "resources_calls xs B b" by (auto simp only: resources_calls_Cons_iff)
  have "resources_calls (xs @ ys) B (b @ cs2)"
    using Cons.IH [OF n(3) Cons.prems(2)] .
  then have "resources_calls (x # xs @ ys) B (a @ (b @ cs2))"
    using n(2) by (auto simp only: resources_calls_Cons_iff)
  then show ?case using n(1) by simp
qed

lemma call_errors_resources_append:
  "resources_calls xs B cs \<Longrightarrow> call_errors (cs @ ds) = call_errors cs @ call_errors ds"
proof (induction xs arbitrary: cs)
  case Nil
  then show ?case by simp
next
  case (Cons x xs)
  from Cons.prems obtain a b where n: "cs = a @ b" "pagination_calls x B [] a"
     "resources_calls xs B b" by (auto simp only: resources_calls_Cons_iff)
  have "call_errors (a @ (b @ ds)) = call_errors a @ call_errors (b @ ds)"
    using n(2) by (rule call_errors_pagination_append)
  moreover have "call_errors (a @ b) = call_errors a @ call_errors b"
    using n(2) by (rule call_errors_pagination_append)
  ultimately show ?case using Cons.IH [OF n(3)] n(1) by simp
qed

lemma listable_Cons:
  "groupVersionFromString gvs = Some gv \<Longrightarrow>
   listable gvs (r # rs) = (if ''list'' \<in> set (Verbs r) then [WithResource gv (Name r)] else []) @ listable gvs rs"
  by (simp add: listable_def)

lemma list_resources_calls:
  assumes "list_resources (observed cl) (observed_cb cb) B lw gvs rs st = Some st'"
  shows "\<exists>cs. fst (world st') = fst (world st) @ cs
           \<and> resources_calls (listable gvs rs) B cs
           \<and> errors st' = errors st @ call_errors cs
           \<and> prefix (logged st) (logged st')"
  using assms
proof (induction rs arbitrary: st)
  case Nil
  then show ?case by (simp add: listable_def split: option.splits)
next
  case (Cons r rs)
  from Cons.prems obtain gv where gv: "groupVersionFromString gvs = Some gv"
    by (auto split: option.splits)
  let ?res = "WithResource gv (Name r)"
  show ?case
  proof (cases "''list'' \<in> set (Verbs r)")
    case False
    let ?st1 = "st\<lparr>logged := Fprint lw (''skipping '' @ gvr_String ?res @ '': no list verb\<newline>'') (logged st)\<rparr>"
    have "list_resources (observed cl) (observed_cb cb) B lw gvs rs ?st1 = Some st'"
      using Cons.prems gv False by (simp add: slices_Contains_def)
    from Cons.IH [OF this] obtain cs where cs: "fst (world st') = fst (world ?st1) @ cs"
      "resources_calls (listable gvs rs) B cs" "errors st' = errors ?st1 @ call_errors cs"
      "prefix (logged ?st1) (logged st')" by auto
    have "prefix (logged st) (logged ?st1)" by (cases lw) (simp_all add: Fprint_def)
    then have "prefix (logged st) (logged st')" using cs(4) by (rule prefix_order.trans)
    then show ?thesis using cs gv False by (intro exI [of _ cs]) (simp add: listable_Cons)
  next
    case True
    from Cons.prems gv True obtain st1 where
      p: "paginate (observed cl) (observed_cb cb) ?res B [] st = Some st1"
      and rest: "list_resources (observed cl) (observed_cb cb) B lw gvs rs st1 = Some st'"
      by (auto simp: slices_Contains_def Let_def split: option.splits)
    from paginate_calls [OF p] obtain cs1 where cs1: "fst (world st1) = fst (world st) @ cs1"
      "pagination_calls ?res B [] cs1" "errors st1 = errors st @ call_errors cs1" "logged st1 = logged st"
      by auto
    from Cons.IH [OF rest] obtain cs where cs: "fst (world st') = fst (world st1) @ cs"
      "resources_calls (listable gvs rs) B cs" "errors st' = errors st1 @ call_errors cs"
      "prefix (logged st1) (logged st')" by auto
    have "resources_calls (?res # listable gvs rs) B (cs1 @ cs)"
      using cs1(2) cs(2) by (auto simp only: resources_calls_Cons_iff)
    moreover have "call_errors (cs1 @ cs) = call_errors cs1 @ call_errors cs"
      using cs1(2) by (rule call_errors_pagination_append)
    ultimately show ?thesis using cs cs1 gv True
      by (intro exI [of _ "cs1 @ cs"]) (simp add: listable_Cons)
  qed
qed

lemma list_groups_calls:
  assumes "list_groups (observed cl) (observed_cb cb) B lw sprl st = Some st'"
  shows "\<exists>cs. fst (world st') = fst (world st) @ cs
           \<and> resources_calls (listable_all sprl) B cs
           \<and> errors st' = errors st @ call_errors cs
           \<and> prefix (logged st) (logged st')"
  using assms
proof (induction sprl arbitrary: st)
  case Nil
  then show ?case by (simp add: listable_all_def)
next
  case (Cons re sprl)
  from Cons.prems obtain st1 where
    a: "list_resources (observed cl) (observed_cb cb) B lw (GroupVersionStr re) (APIResources re) st = Some st1"
    and b: "list_groups (observed cl) (observed_cb cb) B lw sprl st1 = Some st'"
    by (auto split: option.splits)
  from list_resources_calls [OF a] obtain cs1 where cs1: "fst (world st1) = fst (world st) @ cs1"
    "resources_calls (listable (GroupVersionStr re) (APIResources re)) B cs1"
    "errors st1 = errors st @ call_errors cs1" "prefix (logged st) (logged st1)" by auto
  from Cons.IH [OF b] obtain cs where cs: "fst (world st') = fst (world st1) @ cs"
    "resources_calls (listable_all sprl) B cs" "errors st' = errors st1 @ call_errors cs"
    "prefix (logged st1) (logged st')" by auto
  have "resources_calls (listable_all (re # sprl)) B (cs1 @ cs)"
    using resources_calls_append [OF cs1(2) cs(2)] by (simp add: listable_all_def)
  moreover have "call_errors (cs1 @ cs) = call_errors cs1 @ call_errors cs"
    using cs1(2) by (rule call_errors_resources_append)
  moreover have "prefix (logged st) (logged st')" using cs1(4) cs(4) by (rule prefix_order.trans)
  ultimately show ?case using cs cs1 by (intro exI [of _ "cs1 @ cs"]) simp
qed

lemma returned_pages_append: "returned_pages (a @ b) = returned_pages a @ returned_pages b"
  by (induction a rule: returned_pages.induct) simp_all

lemma dumped_pages_append: "dumped_pages (a @ b) = dumped_pages a @ dumped_pages b"
  by (induction a rule: dumped_pages.induct) simp_all

lemma resources_calls_dumped:
  "resources_calls xs B cs \<Longrightarrow> dumped_pages cs = returned_pages cs"
proof (induction xs arbitrary: cs)
  case Nil
  then show ?case by simp
next
  case (Cons x xs)
  from Cons.prems obtain a b where n: "cs = a @ b" "pagination_calls x B [] a"
     "resources_calls xs B b" by (auto simp only: resources_calls_Cons_iff)
  show ?case using n(1) pagination_calls_dumped [OF n(2)] Cons.IH [OF n(3)]
    by (simp add: returned_pages_append dumped_pages_append)
qed

lemma pagination_calls_resource:
  "pagination_calls res B key cs \<Longrightarrow> ListCall r b k x \<in> set cs \<Longrightarrow> r = res \<and> b = B"
  by (induction res B key cs rule: pagination_calls.induct) (auto split: if_splits)

lemma resources_calls_resource:
  "resources_calls xs B cs \<Longrightarrow> ListCall r b k x \<in> set cs \<Longrightarrow> r \<in> set xs \<and> b = B"
proof (induction xs arbitrary: cs)
  case Nil
  then show ?case by simp
next
  case (Cons y ys)
  from Cons.prems(1) obtain a c where n: "cs = a @ c" "pagination_calls y B [] a"
     "resources_calls ys B c" by (auto simp only: resources_calls_Cons_iff)
  show ?case using Cons.prems(2) n(1) pagination_calls_resource [OF n(2)] Cons.IH [OF n(3)]
    by auto
qed

lemma pagination_calls_failed_last:
  "pagination_calls res B key cs \<Longrightarrow> ListCall r b k (Inl e) \<notin> set (butlast cs)"
  by (induction res B key cs rule: pagination_calls.induct) (auto split: if_splits)

lemma call_errors_failed_pagination:
  "pagination_calls res B key cs \<Longrightarrow> length (call_errors cs) = length (filter is_failed_call cs)"
proof (induction res B key cs rule: pagination_calls.induct)
  case (2 res B key res' B' key' pg pg' d cs)
  then show ?case by (cases d) (auto split: if_splits)
qed auto

lemma call_errors_failed:
  "resources_calls xs B cs \<Longrightarrow> length (call_errors cs) = length (filter is_failed_call cs)"
proof (induction xs arbitrary: cs)
  case Nil
  then show ?case by simp
next
  case (Cons y ys)
  from Cons.prems(1) obtain a c where n: "cs = a @ c" "pagination_calls y B [] a"
     "resources_calls ys B c" by (auto simp only: resources_calls_Cons_iff)
  show ?case using n(1) call_errors_pagination_append [OF n(2), of c]
      call_errors_failed_pagination [OF n(2)] Cons.IH [OF n(3)]
    by simp
qed

lemma Combine_None_iff: "Combine errs = None \<longleftrightarrow> errs = []"
  by (simp add: Combine_def split: list.splits)

lemma demo_run:
  "DiscoverObjects (observed demo_cluster) (observed_cb demo_cb) demo_opts ([], ())
   = Some (Some (MultiErr [Wrapped ''failed to dump /v1, Resource=pods'' (Errno ''disk full''),
                           Wrapped ''failed to list apps/v1, Resource=deployments'' (Errno ''timeout'')]),
           [''Discovered resources:\<newline>'', ''v1\<newline>'', ''   Pod\<newline>'', ''   Binding\<newline>'',
            ''apps/v1\<newline>'', ''   Deployment\<newline>'',
            ''skipping /v1, Resource=bindings: no list verb\<newline>''],
           [ListCall \<lparr>gvrGroup = [], gvrVersion = ''v1'', gvrResource = ''pods''\<rparr> 2
              [] (Inr \<lparr>Items = [''a'', ''b''], Continue = ''k1''\<rparr>),
            DumpCall \<lparr>Items = [''a'', ''b''], Continue = ''k1''\<rparr> (Some (Errno ''disk full'')),
            ListCall \<lparr>gvrGroup = [], gvrVersion = ''v1'', gvrResource = ''pods''\<rparr> 2
              ''k1'' (Inr \<lparr>Items = [''c''], Continue = []\<rparr>),
            DumpCall \<lparr>Items = [''c''], Continue = []\<rparr> None,
            ListCall \<lparr>gvrGroup = ''apps'', gvrVersion = ''v1'', gvrResource = ''deployments''\<rparr>
              2 [] (Inl (Errno ''timeout''))],
           ())"
  by code_simp

lemma paginate_list_failed:
  assumes "List cl res B key (world st) = (Inl e, w1)"
  shows "paginate cl cb res B key st
         = Some (st\<lparr>errors := errors st @ [Wrapped (''failed to list '' @ gvr_String res) e],
                    world := w1\<rparr>)"
  using assms by (subst paginate.simps) simp

lemma paginate_list_ok:
  assumes "List cl res B key (world st) = (Inr pg, w1)" and "cb pg w1 = (d, w2)"
  shows "paginate cl cb res B key st
         = (if Continue pg = []
            then Some (st\<lparr>errors := errors st @ (case d of None \<Rightarrow> [] | Some e \<Rightarrow> [Wrapped (''failed to dump '' @ gvr_String res) e]),
                          world := w2\<rparr>)
            else paginate cl cb res B (Continue pg)
                   (st\<lparr>errors := errors st @ (case d of None \<Rightarrow> [] | Some e \<Rightarrow> [Wrapped (''failed to dump '' @ gvr_String res) e]),
                      world := w2\<rparr>))"
  using assms by (subst paginate.simps) (simp add: Let_def split: option.splits)

lemma DiscoverObjects_calls:
  assumes "NewDiscoveryClientForConfig cl = None" and "NewForConfig cl = None"
    and "ServerPreferredResources cl w = (Inr sprl, w1)"
    and "DiscoverObjects (observed cl) (observed_cb cb) opts (tr, w) = Some (ret, lg, wend)"
  shows "\<exists>cs. fst wend = tr @ cs
           \<and> resources_calls (listable_all sprl) (GetBatchSize opts) cs
           \<and> ret = Combine (call_errors cs)"
proof -
  let ?st0 = "\<lparr>errors = [], logged = print_discovered (GetLogWriter opts) sprl
                 (Fprint (GetLogWriter opts) ''Discovered resources:\<newline>'' []), world = (tr, w1)\<rparr>"
  have sp: "ServerPreferredResources (observed cl) (tr, w) = (Inr sprl, (tr, w1))"
    using assms(3) by (simp add: observed_def)
  have pre: "NewDiscoveryClientForConfig (observed cl) = None" "NewForConfig (observed cl) = None"
    using assms(1,2) by (simp_all add: observed_def)
  from assms(4) obtain st where
    st: "list_groups (observed cl) (observed_cb cb) (GetBatchSize opts) (GetLogWriter opts) sprl ?st0 = Some st"
    and r: "ret = Combine (errors st)" "wend = world st"
    unfolding DiscoverObjects_def Let_def pre sp by (auto split: option.splits)
  from list_groups_calls [OF st] obtain cs where
    "fst (world st) = fst (world ?st0) @ cs" "resources_calls (listable_all sprl) (GetBatchSize opts) cs"
    "errors st = errors ?st0 @ call_errors cs" by auto
  then show ?thesis using r by (intro exI [of _ cs]) simp
qed

lemma paginate_logged:
  assumes "paginate cl cb res B key st = Some st'"
  shows "logged st' = logged st \<and> prefix (errors st) (errors st')"
  using assms
proof (induction rule: paginate.raw_induct [rotated 1, consumes 1, case_names step])
  case (step pag cl cb res B key st st')
  obtain r w1 where l: "List cl res B key (world st) = (r, w1)"
    by (cases "List cl res B key (world st)")
  show ?case
  proof (cases r)
    case (Inl e)
    then show ?thesis using step(2) l by auto
  next
    case (Inr pg)
    obtain d w2 where c: "cb pg w1 = (d, w2)" by (cases "cb pg w1")
    define st1 where "st1 = st\<lparr>errors := (case d of Some err \<Rightarrow> errors st @ [Wrapped (''failed to dump '' @ gvr_String res) err]
                               | None \<Rightarrow> errors st), world := w2\<rparr>"
    have p: "prefix (errors st) (errors st1)" "logged st1 = logged st"
      by (cases d; simp add: st1_def)+
    have body: "(if Continue pg = [] then Some st1 else pag cl cb res B (Continue pg) st1) = Some st'"
      using step(2) l c Inr by (simp add: st1_def Let_def split: if_splits)
    show ?thesis
    proof (cases "Continue pg = []")
      case True
      then show ?thesis using body p by auto
    next
      case False
      then have "pag cl cb res B (Continue pg) st1 = Some st'" using body by simp
      from step(1) [OF this] show ?thesis using p by (auto intro: prefix_order.trans)
    qed
  qed
qed

lemma list_resources_logged:
  assumes "list_resources cl cb B lw gvs rs st = Some st'"
  shows "prefix (logged st) (logged st') \<and> prefix (errors st) (errors st')"
  using assms
proof (induction rs arbitrary: st)
  case Nil
  then show ?case by simp
next
  case (Cons r rs)
  from Cons.prems obtain gv where gv: "groupVersionFromString gvs = Some gv"
    by (auto split: option.splits)
  let ?res = "WithResource gv (Name r)"
  show ?case
  proof (cases "''list'' \<in> set (Verbs r)")
    case False
    let ?st1 = "st\<lparr>logged := Fprint lw (''skipping '' @ gvr_String ?res @ '': no list verb\<newline>'') (logged st)\<rparr>"
    have "list_resources cl cb B lw gvs rs ?st1 = Some st'"
      using Cons.prems gv False by (simp add: slices_Contains_def)
    from Cons.IH [OF this] have "prefix (logged ?st1) (logged st')" "prefix (errors st) (errors st')"
      by simp_all
    moreover have "prefix (logged st) (logged ?st1)" by (cases lw) (simp_all add: Fprint_def)
    ultimately show ?thesis by (auto intro: prefix_order.trans)
  next
    case True
    from Cons.prems gv True obtain st1 where
      p: "paginate cl cb ?res B [] st = Some st1"
      and rest: "list_resources cl cb B lw gvs rs st1 = Some st'"
      by (auto simp: slices_Contains_def Let_def split: option.splits)
    show ?thesis using paginate_logged [OF p] Cons.IH [OF rest]
      by (auto intro: prefix_order.trans)
  qed
qed

lemma demo_list_groups:
  "list_groups (observed demo_cluster) (observed_cb demo_cb) 2 Stream demo_sprl
     \<lparr>errors = [], logged = [], world = ([], ())\<rparr>
   = Some \<lparr>errors = [Wrapped ''failed to dump /v1, Resource=pods'' (Errno ''disk full''),
                      Wrapped ''failed to list apps/v1, Resource=deployments'' (Errno ''timeout'')],
           logged = [''skipping /v1, Resource=bindings: no list verb\<newline>''],
           world =
            ([ListCall \<lparr>gvrGroup = [], gvrVersion = ''v1'', gvrResource = ''pods''\<rparr> 2
                [] (Inr \<lparr>Items = [''a'', ''b''], Continue = ''k1''\<rparr>),
              DumpCall \<lparr>Items = [''a'', ''b''], Continue = ''k1''\<rparr> (Some (Errno ''disk full'')),
              ListCall \<lparr>gvrGroup = [], gvrVersion = ''v1'', gvrResource = ''pods''\<rparr> 2
                ''k1'' (Inr \<lparr>Items = [''c''], Continue = []\<rparr>),
              DumpCall \<lparr>Items = [''c''], Continue = []\<rparr> None,
              ListCall \<lparr>gvrGroup = ''apps'', gvrVersion = ''v1'', gvrResource = ''deployments''\<rparr>
                2 [] (Inl (Errno ''timeout''))],
             ())\<rparr>"
  by code_simp


lemma pagination_calls_list_error:
  "pagination_calls res B key cs \<Longrightarrow> ListCall r b k (Inl e) \<in> set cs \<Longrightarrow>
   Wrapped (''failed to list '' @ gvr_String res) e \<in> set (call_errors cs)"
proof (induction res B key cs rule: pagination_calls.induct)
  case (2 res B key res' B' key' pg pg' d cs)
  then show ?case by (cases d) (auto split: if_splits)
qed auto

lemma pagination_calls_dump_error:
  "pagination_calls res B key cs \<Longrightarrow> DumpCall pg (Some e) \<in> set cs \<Longrightarrow>
   Wrapped (''failed to dump '' @ gvr_String res) e \<in> set (call_errors cs)"
proof (induction res B key cs rule: pagination_calls.induct)
  case (2 res B key res' B' key' pg pg' d cs)
  then show ?case by (cases d) (auto split: if_splits)
qed auto

lemma resources_calls_dump_error:
  "resources_calls xs B cs \<Longrightarrow> DumpCall pg (Some e) \<in> set cs \<Longrightarrow>
   \<exists>res \<in> set xs. Wrapped (''failed to dump '' @ gvr_String res) e \<in> set (call_errors cs)"
proof (induction xs arbitrary: cs)
  case Nil
  then show ?case by simp
next
  case (Cons y ys)
  from Cons.prems(1) obtain a c where n: "cs = a @ c" "pagination_calls y B [] a"
     "resources_calls ys B c" by (auto simp only: resources_calls_Cons_iff)
  have ce: "call_errors cs = call_errors a @ call_errors c"
    using n(1) call_errors_pagination_append [OF n(2)] by simp
  from Cons.prems(2) n(1) consider "DumpCall pg (Some e) \<in> set a" | "DumpCall pg (Some e) \<in> set c"
    by auto
  then show ?case
  proof cases
    case 1
    then show ?thesis using pagination_calls_dump_error [OF n(2)] ce by auto
  next
    case 2
    then show ?thesis using Cons.IH [OF n(3)] ce by auto
  qed
qed

lemma resources_calls_list_error:
  "resources_calls xs B cs \<Longrightarrow> ListCall r b k (Inl e) \<in> set cs \<Longrightarrow>
   Wrapped (''failed to list '' @ gvr_String r) e \<in> set (call_errors cs)"
proof (induction xs arbitrary: cs)
  case Nil
  then show ?case by simp
next
  case (Cons y ys)
  from Cons.prems(1) obtain a c where n: "cs = a @ c" "pagination_calls y B [] a"
     "resources_calls ys B c" by (auto simp only: resources_calls_Cons_iff)
  have ce: "call_errors cs = call_errors a @ call_errors c"
    using n(1) call_errors_pagination_append [OF n(2)] by simp
  from Cons.prems(2) n(1) consider "ListCall r b k (Inl e) \<in> set a" | "ListCall r b k (Inl e) \<in> set c"
    by auto
  then show ?case
  proof cases
    case 1
    then show ?thesis using pagination_calls_list_error [OF n(2) 1] pagination_calls_resource [OF n(2) 1] ce
      by auto
  next
    case 2
    then show ?thesis using Cons.IH [OF n(3)] ce by auto
  qed
qed


lemma filter_failed_empty_iff:
  "length (filter is_failed_call cs) = 0 \<longleftrightarrow> (\<forall>c \<in> set cs. \<not> is_failed_call c)"
  by (simp add: filter_empty_conv)


section \<open>Runs that return\<close>

lemma list_resources_returns:
  assumes "\<forall>res st. paginate cl cb res B [] st \<noteq> None"
  shows "list_resources cl cb B lw gvs rs st \<noteq> None"
proof (induction rs arbitrary: st)
  case Nil
  then show ?case by simp
next
  case (Cons r rs)
  obtain gv where gv: "groupVersionFromString gvs = Some gv"
    using groupVersionFromString_total [of gvs] by auto
  show ?case
  proof (cases "''list'' \<in> set (Verbs r)")
    case False
    then show ?thesis using gv Cons.IH by (simp add: slices_Contains_def)
  next
    case True
    have "paginate cl cb (WithResource gv (Name r)) B [] st \<noteq> None" using assms by blast
    then obtain st1 where "paginate cl cb (WithResource gv (Name r)) B [] st = Some st1"
      by auto
    then show ?thesis using gv True Cons.IH [of st1] by (simp add: slices_Contains_def)
  qed
qed

lemma list_groups_returns:
  assumes "\<forall>res st. paginate cl cb res B [] st \<noteq> None"
  shows "list_groups cl cb B lw sprl st \<noteq> None"
proof (induction sprl arbitrary: st)
  case Nil
  then show ?case by simp
next
  case (Cons re sprl)
  obtain st1 where
    "list_resources cl cb B lw (GroupVersionStr re) (APIResources re) st = Some st1"
    using list_resources_returns [OF assms, of lw "GroupVersionStr re" "APIResources re" st]
    by auto
  then show ?case using Cons.IH [of st1] by simp
qed

lemma DiscoverObjects_returns:
  assumes "\<forall>res st. paginate cl cb res (GetBatchSize opts) [] st \<noteq> None"
  shows "DiscoverObjects cl cb opts w \<noteq> None"
proof -
  obtain r w1 where sp: "ServerPreferredResources cl w = (r, w1)"
    by (cases "ServerPreferredResources cl w")
  show ?thesis
  proof (cases r)
    case (Inl e)
    then show ?thesis using sp
      by (simp add: DiscoverObjects_def Let_def split: option.splits)
  next
    case (Inr sprl)
    let ?st0 = "\<lparr>errors = [], logged = print_discovered (GetLogWriter opts) sprl
                 (Fprint (GetLogWriter opts) ''Discovered resources:\<newline>'' []), world = w1\<rparr>"
    obtain st where "list_groups cl cb (GetBatchSize opts) (GetLogWriter opts) sprl ?st0 = Some st"
      using list_groups_returns [OF assms, of "GetLogWriter opts" sprl ?st0] by auto
    then show ?thesis using sp Inr
      by (simp add: DiscoverObjects_def Let_def split: option.splits)
  qed
qed

lemma emit_append: "emit lw (a @ b) out = emit lw b (emit lw a out)"
  by (simp add: emit_def)

lemma emit_Stream: "emit Stream ts out = out @ ts"
  by (induction ts arbitrary: out) (simp_all add: emit_def Fprint_def)

lemma list_resources_log:
  assumes "list_resources cl cb B lw gvs rs st = Some st'"
  shows "logged st'
         = emit lw (map (skip_notice gvs) (filter (\<lambda>r. ''list'' \<notin> set (Verbs r)) rs)) (logged st)"
  using assms
proof (induction rs arbitrary: st)
  case Nil
  then show ?case by (simp add: emit_def)
next
  case (Cons r rs)
  from Cons.prems obtain gv where gv: "groupVersionFromString gvs = Some gv"
    by (auto split: option.splits)
  let ?res = "WithResource gv (Name r)"
  show ?case
  proof (cases "''list'' \<in> set (Verbs r)")
    case False
    let ?st1 = "st\<lparr>logged := Fprint lw (''skipping '' @ gvr_String ?res @ '': no list verb\<newline>'') (logged st)\<rparr>"
    have "list_resources cl cb B lw gvs rs ?st1 = Some st'"
      using Cons.prems gv False by (simp add: slices_Contains_def)
    from Cons.IH [OF this] show ?thesis using False gv
      by (simp add: emit_def skip_notice_def)
  next
    case True
    from Cons.prems gv True obtain st1 where
      p: "paginate cl cb ?res B [] st = Some st1"
      and rest: "list_resources cl cb B lw gvs rs st1 = Some st'"
      by (auto simp: slices_Contains_def Let_def split: option.splits)
    show ?thesis using paginate_logged [OF p] Cons.IH [OF rest] True by simp
  qed
qed

lemma list_groups_log:
  assumes "list_groups cl cb B lw sprl st = Some st'"
  shows "logged st' = emit lw (skip_notices sprl) (logged st)"
  using assms
proof (induction sprl arbitrary: st)
  case Nil
  then show ?case by (simp add: emit_def skip_notices_def)
next
  case (Cons re sprl)
  from Cons.prems obtain st1 where
    a: "list_resources cl cb B lw (GroupVersionStr re) (APIResources re) st = Some st1"
    and b: "list_groups cl cb B lw sprl st1 = Some st'"
    by (auto split: option.splits)
  show ?case using list_resources_log [OF a] Cons.IH [OF b]
    by (simp add: skip_notices_def emit_append)
qed

lemma DiscoverObjects_run:
  assumes "NewDiscoveryClientForConfig cl = None" and "NewForConfig cl = None"
    and "ServerPreferredResources cl w = (Inr sprl, w1)"
    and "\<forall>res st. paginate (observed cl) (observed_cb cb) res (GetBatchSize opts) [] st \<noteq> None"
  shows "\<exists>ret lg wend cs.
           DiscoverObjects (observed cl) (observed_cb cb) opts (tr, w) = Some (ret, lg, wend)
         \<and> lg = emit (GetLogWriter opts) (skip_notices sprl)
                  (print_discovered (GetLogWriter opts) sprl
                     (Fprint (GetLogWriter opts) ''Discovered resources:\<newline>'' []))
         \<and> fst wend = tr @ cs
         \<and> resources_calls (listable_all sprl) (GetBatchSize opts) cs
         \<and> ret = Combine (call_errors cs)"
proof -
  let ?lw = "GetLogWriter opts"
  let ?st0 = "\<lparr>errors = [], logged = print_discovered ?lw sprl
                 (Fprint ?lw ''Discovered resources:\<newline>'' []), world = (tr, w1)\<rparr>"
  have sp: "ServerPreferredResources (observed cl) (tr, w) = (Inr sprl, (tr, w1))"
    using assms(3) by (simp add: observed_def)
  have pre: "NewDiscoveryClientForConfig (observed cl) = None" "NewForConfig (observed cl) = None"
    using assms(1,2) by (simp_all add: observed_def)
  obtain st where
    st: "list_groups (observed cl) (observed_cb cb) (GetBatchSize opts) ?lw sprl ?st0 = Some st"
    using list_groups_returns [OF assms(4), of ?lw sprl ?st0] by auto
  have d: "DiscoverObjects (observed cl) (observed_cb cb) opts (tr, w)
           = Some (Combine (errors st), logged st, world st)"
    using st unfolding DiscoverObjects_def Let_def pre sp by simp
  from list_groups_calls [OF st] obtain cs where
    cs: "fst (world st) = fst (world ?st0) @ cs"
        "resources_calls (listable_all sprl) (GetBatchSize opts) cs"
        "errors st = errors ?st0 @ call_errors cs" by auto
  have lg: "logged st = emit ?lw (skip_notices sprl) (logged ?st0)"
    using st by (rule list_groups_log)
  show ?thesis
    using d cs lg
    by (intro exI [of _ "Combine (errors st)"] exI [of _ "logged st"] exI [of _ "world st"]
              exI [of _ cs]) simp
qed

lemma demo_paginate_returns:
  "paginate (observed demo_cluster) (observed_cb demo_cb) res B [] st \<noteq> None"
proof -
  obtain tr w where w: "world st = (tr, w)" by (cases "world st")
  show ?thesis
  proof (cases "gvrResource res = ''pods''")
    case False
    then show ?thesis using w
      by (subst paginate.simps) (simp add: List_observed demo_cluster_def demo_List_def)
  next
    case True
    then show ?thesis using w
      apply (subst paginate.simps)
      apply (simp add: List_observed observed_cb_apply demo_cluster_def demo_List_def demo_cb_def Let_def)
      apply (subst paginate.simps)
      apply (simp add: List_observed observed_cb_apply demo_cluster_def demo_List_def demo_cb_def Let_def)
      done
  qed
qed

section \<open>Paginating a chunked collection\<close>

lemma ceil_div: 
  assumes "0 < (b::nat)"
  shows "nat \<lceil>real n / real b\<rceil> = (n + b - 1) div b"
proof -
  define q where "q = (n + b - 1) div b"
  have 1: "q * b \<le> n + b - 1" by (simp add: q_def)
  have 2: "n + b - 1 < b + q * b" unfolding q_def using assms by (rule dividend_less_div_times)
  have "n \<le> q * b" using 2 assms by simp
  then have "real n \<le> real (q * b)" by (rule of_nat_mono)
  then have up: "real n / real b \<le> real q" using assms by (simp add: pos_divide_le_eq)
  have "q * b < n + b" using 1 assms by simp
  then have "real (q * b) < real (n + b)" by (simp only: of_nat_less_iff)
  then have "(real q - 1) * real b < real n" by (simp add: algebra_simps)
  then have lo: "real q - 1 < real n / real b" using assms by (simp add: pos_less_divide_eq)
  have "\<lceil>real n / real b\<rceil> = int q"
    by (rule ceiling_unique) (use lo up in simp_all)
  then show ?thesis by (simp add: q_def)
qed

lemma Continue_chunk:
  "0 < B \<Longrightarrow> (Continue (chunk coll B off) = []) = (\<not> off + nat B < length coll)"
  by (simp add: chunk_def cursor_def)

lemma Continue_chunk_more:
  "off + nat B < length coll \<Longrightarrow> Continue (chunk coll B off) = cursor (off + nat B)"
  by (simp add: chunk_def)

lemma paginate_chunked:
  assumes B: "0 < B"
  shows "\<exists>st' cs. paginate (observed (chunked_cluster coll)) (observed_cb cb) res B (cursor off) st = Some st'
          \<and> fst (world st') = fst (world st) @ cs
          \<and> pagination_calls res B (cursor off) cs
          \<and> returned_pages cs = map (chunk coll B) (chunk_starts (length coll) (nat B) off)
          \<and> filter is_list_call cs
              = map (\<lambda>k. ListCall res B (cursor k) (Inr (chunk coll B k)))
                    (chunk_starts (length coll) (nat B) off)"
proof (induction "length coll" "nat B" off arbitrary: st rule: chunk_starts.induct)
  case (1 off)
  obtain tr w where w: "world st = (tr, w)" by (cases "world st")
  let ?pg = "chunk coll B off"
  obtain d w2 where c: "cb ?pg w = (d, w2)" by (cases "cb ?pg w")
  define st1 where "st1 = st\<lparr>errors := (case d of Some err \<Rightarrow> errors st @ [Wrapped (''failed to dump '' @ gvr_String res) err]
                               | None \<Rightarrow> errors st), world := (tr @ [ListCall res B (cursor off) (Inr ?pg), DumpCall ?pg d], w2)\<rparr>"
  have step: "paginate (observed (chunked_cluster coll)) (observed_cb cb) res B (cursor off) st
        = (if Continue ?pg = [] then Some st1
           else paginate (observed (chunked_cluster coll)) (observed_cb cb) res B (Continue ?pg) st1)"
    using w c
    by (subst paginate.simps)
       (simp add: List_observed observed_cb_apply chunked_cluster_def chunked_List_def cursor_def
                  st1_def Let_def)
  show ?case
  proof (cases "off + nat B < length coll")
    case False
    then have "Continue ?pg = []" using B by (simp add: Continue_chunk)
    moreover have "chunk_starts (length coll) (nat B) off = [off]"
      using False by (subst chunk_starts.simps) simp
    ultimately show ?thesis using step w
      by (intro exI [of _ st1] exI [of _ "[ListCall res B (cursor off) (Inr ?pg), DumpCall ?pg d]"])
         (simp add: st1_def)
  next
    case True
    then have cont: "Continue ?pg = cursor (off + nat B)" by (simp add: Continue_chunk_more)
    have ne: "Continue ?pg \<noteq> []" using True B by (simp add: Continue_chunk)
    have starts: "chunk_starts (length coll) (nat B) off = off # chunk_starts (length coll) (nat B) (off + nat B)"
      using True B by (subst chunk_starts.simps) simp
    from 1 [of st1] True B obtain st' cs where
      r: "paginate (observed (chunked_cluster coll)) (observed_cb cb) res B (cursor (off + nat B)) st1 = Some st'"
        "fst (world st') = fst (world st1) @ cs"
        "pagination_calls res B (cursor (off + nat B)) cs"
        "returned_pages cs = map (chunk coll B) (chunk_starts (length coll) (nat B) (off + nat B))"
        "filter is_list_call cs = map (\<lambda>k. ListCall res B (cursor k) (Inr (chunk coll B k)))
                    (chunk_starts (length coll) (nat B) (off + nat B))"
      by auto
    show ?thesis using step ne cont r starts w
      by (intro exI [of _ st'] exI [of _ "ListCall res B (cursor off) (Inr ?pg) # DumpCall ?pg d # cs"])
         (simp add: st1_def)
  qed
qed

lemma concat_chunks:
  "0 < b \<Longrightarrow> concat (map (\<lambda>k. take b (drop k coll)) (chunk_starts (length coll) b off)) = drop off coll"
proof (induction "length coll" b off rule: chunk_starts.induct)
  case (1 b off)
  show ?case
  proof (cases "off + b < length coll")
    case True
    then have "chunk_starts (length coll) b off = off # chunk_starts (length coll) b (off + b)"
      using 1(2) by (subst chunk_starts.simps) simp
    moreover have "take b (drop off coll) @ drop (off + b) coll = drop off coll"
      by (metis add.commute append_take_drop_id drop_drop)
    ultimately show ?thesis using 1 True by simp
  next
    case False
    then have "chunk_starts (length coll) b off = [off]"
      by (subst chunk_starts.simps) simp
    then show ?thesis using False by simp
  qed
qed

lemma chunk_starts_nonempty: "chunk_starts n b off \<noteq> []"
  by (subst chunk_starts.simps) simp

lemma length_chunk_starts:
  "0 < b \<Longrightarrow> length (chunk_starts n b off) = max 1 ((n - off + b - 1) div b)"
proof (induction n b off rule: chunk_starts.induct)
  case (1 n b off)
  show ?case
  proof (cases "off + b < n")
    case True
    then have s: "chunk_starts n b off = off # chunk_starts n b (off + b)"
      using 1(2) by (subst chunk_starts.simps) simp
    define m where "m = n - off - 1"
    have a: "n - off + b - 1 = m + b" using True by (simp add: m_def)
    have c: "n - (off + b) + b - 1 = m" using True by (simp add: m_def)
    have "b \<le> m" using True by (simp add: m_def)
    then have d: "1 \<le> m div b" using 1(2) by (simp add: Suc_le_eq div_greater_zero_iff)
    have e: "(m + b) div b = Suc (m div b)" using 1(2) div_add_self2 [of b m] by simp
    have "length (chunk_starts n b (off + b)) = max 1 (m div b)"
      using 1 True c by simp
    then show ?thesis using s a d e by simp
  next
    case False
    then have s: "chunk_starts n b off = [off]"
      by (subst chunk_starts.simps) simp
    have "n - off + b - 1 < 2 * b" using False 1(2) by simp
    then have "(n - off + b - 1) div b < 2" using 1(2)
      by (simp add: div_less_iff_less_mult mult.commute)
    then show ?thesis using s by simp
  qed
qed

lemma last_chunk_starts:
  "0 < b \<Longrightarrow> \<not> last (chunk_starts n b off) + b < n"
proof (induction n b off rule: chunk_starts.induct)
  case (1 n b off)
  show ?case using 1 chunk_starts_nonempty [of n b "off + b"]
    by (subst chunk_starts.simps) simp
qed

lemma butlast_chunk_starts:
  "0 < b \<Longrightarrow> k \<in> set (butlast (chunk_starts n b off)) \<Longrightarrow> k + b < n"
proof (induction n b off rule: chunk_starts.induct)
  case (1 n b off)
  show ?case
  proof (cases "off + b < n")
    case True
    then have s: "chunk_starts n b off = off # chunk_starts n b (off + b)"
      using 1(2) by (subst chunk_starts.simps) simp
    show ?thesis using 1 True s chunk_starts_nonempty [of n b "off + b"] by auto
  next
    case False
    then have "chunk_starts n b off = [off]" by (subst chunk_starts.simps) simp
    then show ?thesis using 1(3) by simp
  qed
qed

lemma Items_chunks:
  "0 < B \<Longrightarrow> concat (map Items (map (chunk coll B) (chunk_starts (length coll) (nat B) off))) = drop off coll"
  using concat_chunks [of "nat B" coll off] by (simp add: chunk_def comp_def)

text \<open>
  Claim C4. For a batch size \<open>B \<ge> 1\<close> and a collection of \<open>N\<close> objects served in
  chunks, the pagination loop returns; it issues exactly \<open>max(1, \<lceil>N/B\<rceil>)\<close> list calls;
  the items of the returned pages, concatenated in call order, are the collection (so
  nothing is repeated and nothing is left out); every page goes to the callback; and
  the loop goes on after every page with a non-empty cursor and stops at the first page
  whose cursor is empty, which is the last one.
\<close>

theorem pagination_of_chunked_collection:
  assumes "1 \<le> B"
  shows "\<exists>st' cs.
           paginate (observed (chunked_cluster coll)) (observed_cb cb) res B [] st = Some st'
         \<and> fst (world st') = fst (world st) @ cs
         \<and> pagination_calls res B [] cs
         \<and> length (filter is_list_call cs) = max 1 (nat \<lceil>real (length coll) / real_of_int B\<rceil>)
         \<and> concat (map Items (returned_pages cs)) = coll
         \<and> dumped_pages cs = returned_pages cs
         \<and> (\<forall>pg \<in> set (butlast (returned_pages cs)). Continue pg \<noteq> [])
         \<and> Continue (last (returned_pages cs)) = []"
proof -
  have B: "0 < B" using assms by simp
  let ?starts = "chunk_starts (length coll) (nat B) 0"
  from paginate_chunked [OF B, of coll cb res 0 st] obtain st' cs where
    r: "paginate (observed (chunked_cluster coll)) (observed_cb cb) res B [] st = Some st'"
       "fst (world st') = fst (world st) @ cs"
       "pagination_calls res B [] cs"
       "returned_pages cs = map (chunk coll B) ?starts"
       "filter is_list_call cs = map (\<lambda>k. ListCall res B (cursor k) (Inr (chunk coll B k))) ?starts"
    by (auto simp: cursor_def)
  have n: "length (filter is_list_call cs) = max 1 (nat \<lceil>real (length coll) / real_of_int B\<rceil>)"
  proof -
    have "length (filter is_list_call cs) = max 1 ((length coll + nat B - 1) div nat B)"
      using r(5) length_chunk_starts [of "nat B" "length coll" 0] B by simp
    moreover have "real_of_int B = real (nat B)" using B by simp
    ultimately show ?thesis using ceil_div [of "nat B" "length coll"] B by simp
  qed
  have items: "concat (map Items (returned_pages cs)) = coll"
    using r(4) Items_chunks [OF B, of coll 0] by simp
  have more: "\<forall>pg \<in> set (butlast (returned_pages cs)). Continue pg \<noteq> []"
  proof
    fix pg assume "pg \<in> set (butlast (returned_pages cs))"
    then obtain k where k: "k \<in> set (butlast ?starts)" "pg = chunk coll B k"
      using r(4) by (auto simp: map_butlast [symmetric])
    then have "k + nat B < length coll" using butlast_chunk_starts [of "nat B" k] B by simp
    then show "Continue pg \<noteq> []" using k B by (simp add: Continue_chunk)
  qed
  have fin: "Continue (last (returned_pages cs)) = []"
  proof -
    have "last (returned_pages cs) = chunk coll B (last ?starts)"
      using r(4) chunk_starts_nonempty [of "length coll" "nat B" 0] by (simp add: last_map)
    then show ?thesis using last_chunk_starts [of "nat B" "length coll" 0] B
      by (simp add: Continue_chunk)
  qed
  have dumped: "dumped_pages cs = returned_pages cs"
    using r(3) by (rule pagination_calls_dumped)
  show ?thesis using r(1,2,3) n items more fin dumped by blast
qed

theorem pagination_of_chunked_collection_witness:
  "(1::int) \<le> 2
   \<and> (\<exists>st' cs.
           paginate (observed (chunked_cluster [10, 20, 30, 40, 50::nat])) (observed_cb (\<lambda>l w. (None, w)))
             \<lparr>gvrGroup = [], gvrVersion = ''v1'', gvrResource = ''pods''\<rparr> 2 []
             \<lparr>errors = [], logged = [], world = ([], ())\<rparr> = Some st'
         \<and> length (filter is_list_call (fst (world st'))) = 3
         \<and> concat (map Items (returned_pages (fst (world st')))) = [10, 20, 30, 40, 50])"
proof -
  have h: "(1::int) \<le> 2" by simp
  have c: "max 1 (nat \<lceil>real (length [10, 20, 30, 40, 50::nat]) / real_of_int 2\<rceil>) = 3"
    by simp
  show ?thesis
    using h c
      pagination_of_chunked_collection [OF h, of "[10, 20, 30, 40, 50::nat]" "\<lambda>l w. (None, w)"
        "\<lparr>gvrGroup = [], gvrVersion = ''v1'', gvrResource = ''pods''\<rparr>"
        "\<lparr>errors = [], logged = [], world = ([], ())\<rparr>"]
    by auto
qed

section \<open>Resources without the list verb\<close>

lemma skip_notice_in_notices:
  assumes "re \<in> set sprl" and "r \<in> set (APIResources re)" and "''list'' \<notin> set (Verbs r)"
  shows "skip_notice (GroupVersionStr re) r \<in> set (skip_notices sprl)"
  using assms by (auto simp: skip_notices_def)

lemma resources_calls_listable:
  assumes "resources_calls rs B cs" and "c \<in> set cs" and "call_resource c = Some res"
  shows "res \<in> set rs"
proof (cases c)
  case (ListCall r' b k x)
  then show ?thesis using assms resources_calls_resource [OF assms(1), of r' b k x] by simp
next
  case (DumpCall pg d)
  then show ?thesis using assms by simp
qed


text \<open>
  Claim C9. A resource whose verbs do not contain \<open>list\<close> is skipped. In the loop, for any
  cluster and callback, the step for such a resource goes on to the remaining resources
  with the world and the errors untouched and the skip notice written to the log writer.
  In a whole run: when the clients can be built, the capability query succeeds and every
  pagination ends, \<open>DiscoverObjects\<close> returns, and what it has written to the log writer is
  the listing of the discovered resources followed by one skip notice for each resource
  without the \<open>list\<close> verb, in the order of the discovery result, so the notice of each
  such resource is in the log of a run that writes to a stream; every list call of the
  run is for a resource that carries the \<open>list\<close> verb; and the returned error combines
  the errors of the failed calls only, so that skipping adds none.
\<close>

theorem skip_without_list_verb:
  assumes "''list'' \<notin> set (Verbs r)"
  shows "(\<exists>gv. groupVersionFromString gvs = Some gv
            \<and> list_resources cl cb B lw gvs (r # rs) st
              = list_resources cl cb B lw gvs rs
                  (st\<lparr>logged := Fprint lw (''skipping '' @ gvr_String (WithResource gv (Name r))
                                              @ '': no list verb\<newline>'') (logged st)\<rparr>)
            \<and> (\<forall>st'. list_resources cl cb B Stream gvs (r # rs) st = Some st' \<longrightarrow>
                   (''skipping '' @ gvr_String (WithResource gv (Name r)) @ '': no list verb\<newline>'')
                     \<in> set (logged st')))
       \<and> (\<forall>st'. list_groups (observed cl') (observed_cb cb') B lw sprl sinit = Some st' \<longrightarrow>
             (\<exists>cs. fst (world st') = fst (world sinit) @ cs
                 \<and> (\<forall>c \<in> set cs. \<forall>res. call_resource c = Some res \<longrightarrow> res \<in> set (listable_all sprl))))
       \<and> (NewDiscoveryClientForConfig cl' = None \<and> NewForConfig cl' = None
            \<and> ServerPreferredResources cl' w = (Inr sprl, w1)
            \<and> (\<forall>res st. paginate (observed cl') (observed_cb cb') res (GetBatchSize opts) [] st \<noteq> None)
            \<and> re \<in> set sprl \<and> r \<in> set (APIResources re) \<longrightarrow>
          (\<exists>ret lg wend cs gv.
              DiscoverObjects (observed cl') (observed_cb cb') opts (tr, w) = Some (ret, lg, wend)
            \<and> groupVersionFromString (GroupVersionStr re) = Some gv
            \<and> lg = emit (GetLogWriter opts) (skip_notices sprl)
                     (print_discovered (GetLogWriter opts) sprl
                        (Fprint (GetLogWriter opts) ''Discovered resources:\<newline>'' []))
            \<and> (''skipping '' @ gvr_String (WithResource gv (Name r)) @ '': no list verb\<newline>'')
                 \<in> set (skip_notices sprl)
            \<and> (GetLogWriter opts = Stream \<longrightarrow>
                 lg = print_discovered Stream sprl [''Discovered resources:\<newline>''] @ skip_notices sprl
                 \<and> (''skipping '' @ gvr_String (WithResource gv (Name r)) @ '': no list verb\<newline>'')
                     \<in> set lg)
            \<and> fst wend = tr @ cs
            \<and> resources_calls (listable_all sprl) (GetBatchSize opts) cs
            \<and> (\<forall>c \<in> set cs. \<forall>res. call_resource c = Some res \<longrightarrow> res \<in> set (listable_all sprl))
            \<and> (WithResource gv (Name r) \<notin> set (listable_all sprl) \<longrightarrow>
                 (\<forall>c \<in> set cs. call_resource c \<noteq> Some (WithResource gv (Name r))))
            \<and> ret = Combine (call_errors cs)
            \<and> length (call_errors cs) = length (filter is_failed_call cs)))"
proof -
  obtain gv where gv: "groupVersionFromString gvs = Some gv"
    using groupVersionFromString_total [of gvs] by auto
  let ?note = "''skipping '' @ gvr_String (WithResource gv (Name r)) @ '': no list verb\<newline>''"
  have step: "list_resources cl cb B lw gvs (r # rs) st
              = list_resources cl cb B lw gvs rs (st\<lparr>logged := Fprint lw ?note (logged st)\<rparr>)" for lw
    using assms gv by (simp add: slices_Contains_def)
  have notice: "?note \<in> set (logged st')" if "list_resources cl cb B Stream gvs (r # rs) st = Some st'" for st'
  proof -
    have "list_resources cl cb B Stream gvs rs (st\<lparr>logged := logged st @ [?note]\<rparr>) = Some st'"
      using that step [of Stream] by (simp add: Fprint_def)
    from list_resources_logged [OF this] have "prefix (logged st @ [?note]) (logged st')" by simp
    then show ?thesis by (auto simp: prefix_def)
  qed
  have a: "\<exists>gv. groupVersionFromString gvs = Some gv
            \<and> list_resources cl cb B lw gvs (r # rs) st
              = list_resources cl cb B lw gvs rs
                  (st\<lparr>logged := Fprint lw (''skipping '' @ gvr_String (WithResource gv (Name r))
                                              @ '': no list verb\<newline>'') (logged st)\<rparr>)
            \<and> (\<forall>st'. list_resources cl cb B Stream gvs (r # rs) st = Some st' \<longrightarrow>
                   (''skipping '' @ gvr_String (WithResource gv (Name r)) @ '': no list verb\<newline>'')
                     \<in> set (logged st'))"
    using gv step notice by blast
  have glob: "\<exists>cs. fst (world st') = fst (world sinit) @ cs
                 \<and> (\<forall>c \<in> set cs. \<forall>res. call_resource c = Some res \<longrightarrow> res \<in> set (listable_all sprl))"
    if "list_groups (observed cl') (observed_cb cb') B lw sprl sinit = Some st'" for st'
  proof -
    from list_groups_calls [OF that] obtain cs where cs: "fst (world st') = fst (world sinit) @ cs"
      "resources_calls (listable_all sprl) B cs" by auto
    have "res \<in> set (listable_all sprl)" if "c \<in> set cs" "call_resource c = Some res" for c res
      using resources_calls_listable [OF cs(2) that] .
    then show ?thesis using cs(1) by blast
  qed
  have b: "\<forall>st'. list_groups (observed cl') (observed_cb cb') B lw sprl sinit = Some st' \<longrightarrow>
             (\<exists>cs. fst (world st') = fst (world sinit) @ cs
                 \<and> (\<forall>c \<in> set cs. \<forall>res. call_resource c = Some res \<longrightarrow> res \<in> set (listable_all sprl)))"
    using glob by blast
  have c: "\<exists>ret lg wend cs gv.
              DiscoverObjects (observed cl') (observed_cb cb') opts (tr, w) = Some (ret, lg, wend)
            \<and> groupVersionFromString (GroupVersionStr re) = Some gv
            \<and> lg = emit (GetLogWriter opts) (skip_notices sprl)
                     (print_discovered (GetLogWriter opts) sprl
                        (Fprint (GetLogWriter opts) ''Discovered resources:\<newline>'' []))
            \<and> (''skipping '' @ gvr_String (WithResource gv (Name r)) @ '': no list verb\<newline>'')
                 \<in> set (skip_notices sprl)
            \<and> (GetLogWriter opts = Stream \<longrightarrow>
                 lg = print_discovered Stream sprl [''Discovered resources:\<newline>''] @ skip_notices sprl
                 \<and> (''skipping '' @ gvr_String (WithResource gv (Name r)) @ '': no list verb\<newline>'')
                     \<in> set lg)
            \<and> fst wend = tr @ cs
            \<and> resources_calls (listable_all sprl) (GetBatchSize opts) cs
            \<and> (\<forall>c \<in> set cs. \<forall>res. call_resource c = Some res \<longrightarrow> res \<in> set (listable_all sprl))
            \<and> (WithResource gv (Name r) \<notin> set (listable_all sprl) \<longrightarrow>
                 (\<forall>c \<in> set cs. call_resource c \<noteq> Some (WithResource gv (Name r))))
            \<and> ret = Combine (call_errors cs)
            \<and> length (call_errors cs) = length (filter is_failed_call cs)"
    if pre: "NewDiscoveryClientForConfig cl' = None" "NewForConfig cl' = None"
      "ServerPreferredResources cl' w = (Inr sprl, w1)"
      "\<forall>res st. paginate (observed cl') (observed_cb cb') res (GetBatchSize opts) [] st \<noteq> None"
      and mem: "re \<in> set sprl" "r \<in> set (APIResources re)"
  proof -
    let ?lw = "GetLogWriter opts"
    from DiscoverObjects_run [OF pre, of tr] obtain ret lg wend cs where
      d: "DiscoverObjects (observed cl') (observed_cb cb') opts (tr, w) = Some (ret, lg, wend)"
      and lg: "lg = emit ?lw (skip_notices sprl)
                     (print_discovered ?lw sprl (Fprint ?lw ''Discovered resources:\<newline>'' []))"
      and cs: "fst wend = tr @ cs"
        "resources_calls (listable_all sprl) (GetBatchSize opts) cs" "ret = Combine (call_errors cs)"
      by blast
    obtain gv' where gv': "groupVersionFromString (GroupVersionStr re) = Some gv'"
      using groupVersionFromString_total [of "GroupVersionStr re"] by auto
    let ?n = "''skipping '' @ gvr_String (WithResource gv' (Name r)) @ '': no list verb\<newline>''"
    have sn: "skip_notice (GroupVersionStr re) r = ?n" using gv' by (simp add: skip_notice_def)
    have inn: "?n \<in> set (skip_notices sprl)"
      using skip_notice_in_notices [OF mem assms] unfolding sn .
    have str: "GetLogWriter opts = Stream \<longrightarrow>
                 lg = print_discovered Stream sprl [''Discovered resources:\<newline>''] @ skip_notices sprl
                 \<and> ?n \<in> set lg"
      using lg inn by (auto simp: emit_Stream Fprint_def)
    have only: "\<forall>c \<in> set cs. \<forall>res. call_resource c = Some res \<longrightarrow> res \<in> set (listable_all sprl)"
      using resources_calls_listable [OF cs(2)] by blast
    have never: "WithResource gv' (Name r) \<notin> set (listable_all sprl) \<longrightarrow>
                 (\<forall>c \<in> set cs. call_resource c \<noteq> Some (WithResource gv' (Name r)))"
      using only by blast
    have n: "length (call_errors cs) = length (filter is_failed_call cs)"
      using cs(2) by (rule call_errors_failed)
    show ?thesis
      by (rule exI [of _ ret], rule exI [of _ lg], rule exI [of _ wend], rule exI [of _ cs],
          rule exI [of _ gv'])
         (intro conjI d gv' lg inn str cs only never n)
  qed
  show ?thesis
    apply (intro conjI a b impI)
    apply (elim conjE)
    apply (rule c)
         apply assumption+
    done
qed


theorem skip_without_list_verb_witness:
  "''list'' \<notin> set (Verbs \<lparr>Name = ''bindings'', Kind = ''Binding'', Verbs = [''create'']\<rparr>)
   \<and> list_resources demo_cluster demo_cb 2 Stream ''v1''
         [\<lparr>Name = ''bindings'', Kind = ''Binding'', Verbs = [''create'']\<rparr>]
         \<lparr>errors = [], logged = [], world = ()\<rparr>
       = Some \<lparr>errors = [], logged = [''skipping /v1, Resource=bindings: no list verb\<newline>''], world = ()\<rparr>
   \<and> (\<exists>st'. list_groups (observed demo_cluster) (observed_cb demo_cb) 2 Stream demo_sprl
                \<lparr>errors = [], logged = [], world = ([], ())\<rparr> = Some st'
            \<and> (\<forall>c \<in> set (fst (world st')). \<forall>res. call_resource c = Some res \<longrightarrow>
                   res \<in> set (listable_all demo_sprl)))
   \<and> NewDiscoveryClientForConfig demo_cluster = None \<and> NewForConfig demo_cluster = None
   \<and> ServerPreferredResources demo_cluster () = (Inr demo_sprl, ())
   \<and> (\<forall>res st. paginate (observed demo_cluster) (observed_cb demo_cb) res
                   (GetBatchSize demo_opts) [] st \<noteq> None)
   \<and> hd demo_sprl \<in> set demo_sprl
   \<and> \<lparr>Name = ''bindings'', Kind = ''Binding'', Verbs = [''create'']\<rparr> \<in> set (APIResources (hd demo_sprl))
   \<and> (\<exists>ret lg wend.
         DiscoverObjects (observed demo_cluster) (observed_cb demo_cb) demo_opts ([], ()) = Some (ret, lg, wend)
       \<and> ''skipping /v1, Resource=bindings: no list verb\<newline>'' \<in> set lg
       \<and> length (filter (\<lambda>t. t = ''skipping /v1, Resource=bindings: no list verb\<newline>'') lg) = 1
       \<and> (\<forall>c \<in> set (fst wend).
             call_resource c \<noteq> Some \<lparr>gvrGroup = [], gvrVersion = ''v1'', gvrResource = ''bindings''\<rparr>)
       \<and> ret = Combine (call_errors (fst wend))
       \<and> length (call_errors (fst wend)) = 2)"
proof -
  let ?r = "\<lparr>Name = ''bindings'', Kind = ''Binding'', Verbs = [''create'']\<rparr>"
  let ?sa = "\<lparr>errors = [], logged = [], world = ()\<rparr>"
  let ?sb = "\<lparr>errors = [], logged = [], world = ([] :: string call list, ())\<rparr>"
  let ?n = "''skipping /v1, Resource=bindings: no list verb\<newline>''"
  let ?res = "\<lparr>gvrGroup = [], gvrVersion = ''v1'', gvrResource = ''bindings''\<rparr>"
  have h: "''list'' \<notin> set (Verbs ?r)" by simp
  have h1: "NewDiscoveryClientForConfig demo_cluster = None" by (simp add: demo_cluster_def)
  have h2: "NewForConfig demo_cluster = None" by (simp add: demo_cluster_def)
  have h3: "ServerPreferredResources demo_cluster () = (Inr demo_sprl, ())" by (simp add: demo_cluster_def)
  have h4: "\<forall>res st. paginate (observed demo_cluster) (observed_cb demo_cb) res
                   (GetBatchSize demo_opts) [] st \<noteq> None"
    by (simp add: demo_paginate_returns)
  have h5: "hd demo_sprl \<in> set demo_sprl" by (simp add: demo_sprl_def)
  have h6: "?r \<in> set (APIResources (hd demo_sprl))" by (simp add: demo_sprl_def)
  note t = skip_without_list_verb [OF h, where gvs = "''v1''" and cl = demo_cluster
             and cb = demo_cb and B = 2 and lw = Stream and rs = "[]" and st = ?sa
             and cl' = demo_cluster and cb' = demo_cb and sprl = demo_sprl and sinit = ?sb
             and w = "()" and ?w1.0 = "()" and opts = demo_opts and re = "hd demo_sprl"
             and tr = "[]"]
  note t1 = t [THEN conjunct1]
  note t2 = t [THEN conjunct2, THEN conjunct1]
  note t3 = t [THEN conjunct2, THEN conjunct2, rule_format, OF conjI [OF h1 conjI [OF h2
                 conjI [OF h3 conjI [OF h4 conjI [OF h5 h6]]]]]]
  have gv: "groupVersionFromString ''v1'' = Some \<lparr>Group = [], Version = ''v1''\<rparr>"
    by (simp add: groupVersionFromString_def)
  have gvh: "GroupVersionStr (hd demo_sprl) = ''v1''" by (simp add: demo_sprl_def)
  have a: "list_resources demo_cluster demo_cb 2 Stream ''v1'' [?r] ?sa
       = Some \<lparr>errors = [], logged = [?n], world = ()\<rparr>"
    using t1 gv by (auto simp: Fprint_def gvr_String_def WithResource_def)
  have b: "\<forall>c \<in> set (fst (world st')). \<forall>res. call_resource c = Some res \<longrightarrow>
                   res \<in> set (listable_all demo_sprl)"
    if "list_groups (observed demo_cluster) (observed_cb demo_cb) 2 Stream demo_sprl ?sb = Some st'" for st'
    using t2 that by auto
  have ab: "\<exists>st'. list_groups (observed demo_cluster) (observed_cb demo_cb) 2 Stream demo_sprl ?sb = Some st'
            \<and> (\<forall>c \<in> set (fst (world st')). \<forall>res. call_resource c = Some res \<longrightarrow>
                   res \<in> set (listable_all demo_sprl))"
    using b demo_list_groups by blast
  from t3 obtain ret lg wend cs gv' where
    d: "DiscoverObjects (observed demo_cluster) (observed_cb demo_cb) demo_opts ([], ()) = Some (ret, lg, wend)"
    and g: "groupVersionFromString (GroupVersionStr (hd demo_sprl)) = Some gv'"
    and s: "GetLogWriter demo_opts = Stream \<longrightarrow>
             lg = print_discovered Stream demo_sprl [''Discovered resources:\<newline>''] @ skip_notices demo_sprl
             \<and> (''skipping '' @ gvr_String (WithResource gv' (Name ?r)) @ '': no list verb\<newline>'') \<in> set lg"
    and w: "fst wend = [] @ cs"
    and nv: "WithResource gv' (Name ?r) \<notin> set (listable_all demo_sprl) \<longrightarrow>
                 (\<forall>c \<in> set cs. call_resource c \<noteq> Some (WithResource gv' (Name ?r)))"
    and r: "ret = Combine (call_errors cs)"
    by blast
  have gv': "gv' = \<lparr>Group = [], Version = ''v1''\<rparr>" using g gv unfolding gvh by simp
  have res: "WithResource gv' (Name ?r) = ?res" by (simp add: gv' WithResource_def)
  have nt: "''skipping '' @ gvr_String (WithResource gv' (Name ?r)) @ '': no list verb\<newline>'' = ?n"
    by (simp add: gv' WithResource_def gvr_String_def)
  have lw: "GetLogWriter demo_opts = Stream" by (simp add: GetLogWriter_def demo_opts_def)
  have sl: "lg = print_discovered Stream demo_sprl [''Discovered resources:\<newline>''] @ skip_notices demo_sprl"
    and sm: "(''skipping '' @ gvr_String (WithResource gv' (Name ?r)) @ '': no list verb\<newline>'') \<in> set lg"
    using s lw by blast+
  have c1: "?n \<in> set lg" using sm unfolding nt .
  have lgv: "lg = print_discovered Stream demo_sprl [''Discovered resources:\<newline>''] @ skip_notices demo_sprl"
    by (rule sl)
  have c2: "length (filter (\<lambda>t. t = ?n) lg) = 1"
    unfolding lgv
    by (simp add: demo_sprl_def skip_notices_def skip_notice_def Fprint_def
                  groupVersionFromString_def gvr_String_def WithResource_def)
  have nl: "?res \<notin> set (listable_all demo_sprl)"
    by (simp add: listable_all_def listable_def demo_sprl_def groupVersionFromString_def
                  WithResource_def)
  have cs: "cs = fst wend" using w by simp
  have c3: "\<forall>c \<in> set (fst wend). call_resource c \<noteq> Some ?res"
    using nv nl unfolding res cs by blast
  have c4: "ret = Combine (call_errors (fst wend))" using r cs by simp
  have run: "DiscoverObjects (observed demo_cluster) (observed_cb demo_cb) demo_opts ([], ())
            = Some (ret, lg, wend)" by (rule d)
  have c5: "length (call_errors (fst wend)) = 2"
    using d unfolding demo_run by auto
  have c: "\<exists>ret lg wend.
         DiscoverObjects (observed demo_cluster) (observed_cb demo_cb) demo_opts ([], ()) = Some (ret, lg, wend)
       \<and> ?n \<in> set lg
       \<and> length (filter (\<lambda>t. t = ?n) lg) = 1
       \<and> (\<forall>c \<in> set (fst wend). call_resource c \<noteq> Some ?res)
       \<and> ret = Combine (call_errors (fst wend))
       \<and> length (call_errors (fst wend)) = 2"
    by (rule exI [of _ ret], rule exI [of _ lg], rule exI [of _ wend])
       (intro conjI d c1 c2 c3 c4 c5)
  show ?thesis by (intro conjI h a ab h1 h2 h3 h4 h5 h6 c)
qed

section \<open>A failed list call\<close>

text \<open>
  Claim C5. When a list call for a resource fails, the pagination of that resource
  returns at once with the failure appended to the errors; in an observed pagination
  all list calls are for that resource, no call follows a failed list call (no retry),
  and each failed list call has its error among the errors; the loop over the resources
  then goes on with the remaining ones from the state the pagination left, and a whole
  run makes one pagination for every listable resource, in order.
\<close>

theorem list_failure_abandons_type:
  "(List cl res B key (world st) = (Inl e, w1) \<longrightarrow>
      paginate cl cb res B key st
      = Some (st\<lparr>errors := errors st @ [Wrapped (''failed to list '' @ gvr_String res) e],
                 world := w1\<rparr>))
   \<and> (\<forall>st'. paginate (observed cl') (observed_cb cb') res B key sinit = Some st' \<longrightarrow>
         (\<exists>cs. fst (world st') = fst (world sinit) @ cs
            \<and> (\<forall>r b k x. ListCall r b k x \<in> set cs \<longrightarrow> r = res)
            \<and> (\<forall>r b k x. ListCall r b k (Inl x) \<notin> set (butlast cs))
            \<and> (\<forall>r b k x. ListCall r b k (Inl x) \<in> set cs \<longrightarrow>
                  Wrapped (''failed to list '' @ gvr_String res) x \<in> set (errors st'))))
   \<and> (''list'' \<in> set (Verbs r) \<and> groupVersionFromString gvs = Some gv
        \<and> paginate cl cb (WithResource gv (Name r)) B [] st = Some st1 \<longrightarrow>
        list_resources cl cb B lw gvs (r # rs) st = list_resources cl cb B lw gvs rs st1)
   \<and> (\<forall>st'. list_groups (observed cl') (observed_cb cb') B lw sprl sinit = Some st' \<longrightarrow>
         (\<exists>cs. fst (world st') = fst (world sinit) @ cs
            \<and> resources_calls (listable_all sprl) B cs
            \<and> (\<forall>r b k x. ListCall r b k (Inl x) \<in> set cs \<longrightarrow>
                  Wrapped (''failed to list '' @ gvr_String r) x \<in> set (errors st'))))"
proof -
  have a: "List cl res B key (world st) = (Inl e, w1) \<Longrightarrow>
      paginate cl cb res B key st
      = Some (st\<lparr>errors := errors st @ [Wrapped (''failed to list '' @ gvr_String res) e],
                 world := w1\<rparr>)"
    by (rule paginate_list_failed)
  have b: "\<exists>cs. fst (world st') = fst (world sinit) @ cs
            \<and> (\<forall>r b k x. ListCall r b k x \<in> set cs \<longrightarrow> r = res)
            \<and> (\<forall>r b k x. ListCall r b k (Inl x) \<notin> set (butlast cs))
            \<and> (\<forall>r b k x. ListCall r b k (Inl x) \<in> set cs \<longrightarrow>
                  Wrapped (''failed to list '' @ gvr_String res) x \<in> set (errors st'))"
    if "paginate (observed cl') (observed_cb cb') res B key sinit = Some st'" for st'
  proof -
    from paginate_calls [OF that] obtain cs where cs: "fst (world st') = fst (world sinit) @ cs"
      "pagination_calls res B key cs" "errors st' = errors sinit @ call_errors cs" by auto
    show ?thesis
      using cs(1,3) pagination_calls_resource [OF cs(2)] pagination_calls_failed_last [OF cs(2)]
        pagination_calls_list_error [OF cs(2)]
      by (intro exI [of _ cs]) auto
  qed
  have c: "list_resources cl cb B lw gvs (r # rs) st = list_resources cl cb B lw gvs rs st1"
    if "''list'' \<in> set (Verbs r)" "groupVersionFromString gvs = Some gv"
       "paginate cl cb (WithResource gv (Name r)) B [] st = Some st1"
    using that by (simp add: slices_Contains_def)
  have d: "\<exists>cs. fst (world st') = fst (world sinit) @ cs
            \<and> resources_calls (listable_all sprl) B cs
            \<and> (\<forall>r b k x. ListCall r b k (Inl x) \<in> set cs \<longrightarrow>
                  Wrapped (''failed to list '' @ gvr_String r) x \<in> set (errors st'))"
    if "list_groups (observed cl') (observed_cb cb') B lw sprl sinit = Some st'" for st'
  proof -
    from list_groups_calls [OF that] obtain cs where cs: "fst (world st') = fst (world sinit) @ cs"
      "resources_calls (listable_all sprl) B cs" "errors st' = errors sinit @ call_errors cs" by auto
    show ?thesis
      using cs resources_calls_list_error [OF cs(2)]
      by (intro exI [of _ cs]) auto
  qed
  show ?thesis using a b c d by blast
qed


theorem list_failure_abandons_type_witness:
  "List demo_cluster \<lparr>gvrGroup = ''apps'', gvrVersion = ''v1'', gvrResource = ''deployments''\<rparr> 2 []
        (world \<lparr>errors = [], logged = [], world = ()\<rparr>) = (Inl (Errno ''timeout''), ())
   \<and> paginate demo_cluster demo_cb
         \<lparr>gvrGroup = ''apps'', gvrVersion = ''v1'', gvrResource = ''deployments''\<rparr> 2 []
         \<lparr>errors = [], logged = [], world = ()\<rparr>
       = Some \<lparr>errors = [Wrapped ''failed to list apps/v1, Resource=deployments'' (Errno ''timeout'')],
               logged = [], world = ()\<rparr>
   \<and> ''list'' \<in> set (Verbs \<lparr>Name = ''deployments'', Kind = ''Deployment'', Verbs = [''list'']\<rparr>)
   \<and> groupVersionFromString ''apps/v1'' = Some \<lparr>Group = ''apps'', Version = ''v1''\<rparr>
   \<and> list_resources demo_cluster demo_cb 2 Stream ''apps/v1''
         [\<lparr>Name = ''deployments'', Kind = ''Deployment'', Verbs = [''list'']\<rparr>,
          \<lparr>Name = ''bindings'', Kind = ''Binding'', Verbs = [''create'']\<rparr>]
         \<lparr>errors = [], logged = [], world = ()\<rparr>
       = list_resources demo_cluster demo_cb 2 Stream ''apps/v1''
           [\<lparr>Name = ''bindings'', Kind = ''Binding'', Verbs = [''create'']\<rparr>]
           \<lparr>errors = [Wrapped ''failed to list apps/v1, Resource=deployments'' (Errno ''timeout'')],
            logged = [], world = ()\<rparr>
   \<and> (\<exists>st'. list_groups (observed demo_cluster) (observed_cb demo_cb) 2 Stream demo_sprl
                \<lparr>errors = [], logged = [], world = ([], ())\<rparr> = Some st'
            \<and> Wrapped ''failed to list apps/v1, Resource=deployments'' (Errno ''timeout'')
                  \<in> set (errors st'))"
proof -
  let ?dep = "\<lparr>gvrGroup = ''apps'', gvrVersion = ''v1'', gvrResource = ''deployments''\<rparr>"
  let ?sa = "\<lparr>errors = [], logged = [], world = ()\<rparr>"
  let ?sb = "\<lparr>errors = [], logged = [], world = ([] :: string call list, ())\<rparr>"
  let ?sc = "\<lparr>errors = [Wrapped ''failed to list apps/v1, Resource=deployments'' (Errno ''timeout'')],
               logged = [], world = ()\<rparr>"
  let ?r = "\<lparr>Name = ''deployments'', Kind = ''Deployment'', Verbs = [''list'']\<rparr>"
  let ?gv = "\<lparr>Group = ''apps'', Version = ''v1''\<rparr>"
  note t = list_failure_abandons_type [where cl = demo_cluster and res = ?dep and B = 2
      and key = "[]" and st = ?sa and e = "Errno ''timeout''" and ?w1.0 = "()" and cb = demo_cb
      and cl' = demo_cluster and cb' = demo_cb and sinit = ?sb and r = ?r and gvs = "''apps/v1''"
      and gv = ?gv and ?st1.0 = ?sc and lw = Stream
      and rs = "[\<lparr>Name = ''bindings'', Kind = ''Binding'', Verbs = [''create'']\<rparr>]"
      and sprl = demo_sprl]
  have h1: "List demo_cluster ?dep 2 [] (world ?sa) = (Inl (Errno ''timeout''), ())"
    by (simp add: demo_cluster_def demo_List_def)
  have h2: "''list'' \<in> set (Verbs ?r)" by simp
  have h3: "groupVersionFromString ''apps/v1'' = Some ?gv"
    by (simp add: groupVersionFromString_def)
  have c1: "paginate demo_cluster demo_cb ?dep 2 [] ?sa = Some ?sc"
    using t h1 by (simp add: gvr_String_def)
  have c1': "paginate demo_cluster demo_cb (WithResource ?gv (Name ?r)) 2 [] ?sa = Some ?sc"
    using c1 by (simp add: WithResource_def)
  have c3: "list_resources demo_cluster demo_cb 2 Stream ''apps/v1''
         [?r, \<lparr>Name = ''bindings'', Kind = ''Binding'', Verbs = [''create'']\<rparr>] ?sa
       = list_resources demo_cluster demo_cb 2 Stream ''apps/v1''
           [\<lparr>Name = ''bindings'', Kind = ''Binding'', Verbs = [''create'']\<rparr>] ?sc"
    using t h2 h3 c1' by blast
  have c4: "\<exists>st'. list_groups (observed demo_cluster) (observed_cb demo_cb) 2 Stream demo_sprl ?sb = Some st'
            \<and> Wrapped ''failed to list apps/v1, Resource=deployments'' (Errno ''timeout'')
                  \<in> set (errors st')"
    using demo_list_groups by simp
  show ?thesis using h1 c1 h2 h3 c3 c4 by blast
qed

section \<open>The callback after a successful list call\<close>

text \<open>
  Claim C6. After a successful list call the callback is invoked with the returned
  page, whatever its items (an empty page included); when the callback fails, the
  failure is appended to the errors and the pagination goes on from the returned cursor
  exactly as it does when the callback succeeds. In an observed run the pages handed to
  the callback are the pages the list calls returned, in order, and every failure of
  the callback has its error among the errors.
\<close>

theorem callback_after_every_page:
  "(List cl res B key (world st) = (Inr pg, w1) \<and> cb pg w1 = (d, w2) \<longrightarrow>
      paginate cl cb res B key st
      = (if Continue pg = []
         then Some (st\<lparr>errors := errors st @ (case d of None \<Rightarrow> []
                                     | Some e \<Rightarrow> [Wrapped (''failed to dump '' @ gvr_String res) e]),
                       world := w2\<rparr>)
         else paginate cl cb res B (Continue pg)
                (st\<lparr>errors := errors st @ (case d of None \<Rightarrow> []
                                     | Some e \<Rightarrow> [Wrapped (''failed to dump '' @ gvr_String res) e]),
                   world := w2\<rparr>)))
   \<and> (\<forall>st'. paginate (observed cl') (observed_cb cb') res B key sinit = Some st' \<longrightarrow>
         (\<exists>cs. fst (world st') = fst (world sinit) @ cs
            \<and> pagination_calls res B key cs
            \<and> dumped_pages cs = returned_pages cs
            \<and> (\<forall>p x. DumpCall p (Some x) \<in> set cs \<longrightarrow>
                  Wrapped (''failed to dump '' @ gvr_String res) x \<in> set (errors st'))))
   \<and> (\<forall>st'. list_groups (observed cl') (observed_cb cb') B lw sprl sinit = Some st' \<longrightarrow>
         (\<exists>cs. fst (world st') = fst (world sinit) @ cs
            \<and> dumped_pages cs = returned_pages cs
            \<and> (\<forall>p x. DumpCall p (Some x) \<in> set cs \<longrightarrow>
                  (\<exists>r \<in> set (listable_all sprl).
                     Wrapped (''failed to dump '' @ gvr_String r) x \<in> set (errors st')))))"
proof -
  have a: "List cl res B key (world st) = (Inr pg, w1) \<and> cb pg w1 = (d, w2) \<longrightarrow>
      paginate cl cb res B key st
      = (if Continue pg = []
         then Some (st\<lparr>errors := errors st @ (case d of None \<Rightarrow> []
                                     | Some e \<Rightarrow> [Wrapped (''failed to dump '' @ gvr_String res) e]),
                       world := w2\<rparr>)
         else paginate cl cb res B (Continue pg)
                (st\<lparr>errors := errors st @ (case d of None \<Rightarrow> []
                                     | Some e \<Rightarrow> [Wrapped (''failed to dump '' @ gvr_String res) e]),
                   world := w2\<rparr>))"
    using paginate_list_ok [of cl res B key st pg w1 cb d w2] by blast
  have b: "\<forall>st'. paginate (observed cl') (observed_cb cb') res B key sinit = Some st' \<longrightarrow>
         (\<exists>cs. fst (world st') = fst (world sinit) @ cs
            \<and> pagination_calls res B key cs
            \<and> dumped_pages cs = returned_pages cs
            \<and> (\<forall>p x. DumpCall p (Some x) \<in> set cs \<longrightarrow>
                  Wrapped (''failed to dump '' @ gvr_String res) x \<in> set (errors st')))"
  proof (intro allI impI)
    fix st' assume that: "paginate (observed cl') (observed_cb cb') res B key sinit = Some st'"
    from paginate_calls [OF that] obtain cs where cs: "fst (world st') = fst (world sinit) @ cs"
      "pagination_calls res B key cs" "errors st' = errors sinit @ call_errors cs" by auto
    show "\<exists>cs. fst (world st') = fst (world sinit) @ cs
            \<and> pagination_calls res B key cs
            \<and> dumped_pages cs = returned_pages cs
            \<and> (\<forall>p x. DumpCall p (Some x) \<in> set cs \<longrightarrow>
                  Wrapped (''failed to dump '' @ gvr_String res) x \<in> set (errors st'))"
      using cs pagination_calls_dumped [OF cs(2)] pagination_calls_dump_error [OF cs(2)]
      by (intro exI [of _ cs]) auto
  qed
  have c: "\<forall>st'. list_groups (observed cl') (observed_cb cb') B lw sprl sinit = Some st' \<longrightarrow>
         (\<exists>cs. fst (world st') = fst (world sinit) @ cs
            \<and> dumped_pages cs = returned_pages cs
            \<and> (\<forall>p x. DumpCall p (Some x) \<in> set cs \<longrightarrow>
                  (\<exists>r \<in> set (listable_all sprl).
                     Wrapped (''failed to dump '' @ gvr_String r) x \<in> set (errors st'))))"
  proof (intro allI impI)
    fix st' assume that: "list_groups (observed cl') (observed_cb cb') B lw sprl sinit = Some st'"
    from list_groups_calls [OF that] obtain cs where cs: "fst (world st') = fst (world sinit) @ cs"
      "resources_calls (listable_all sprl) B cs" "errors st' = errors sinit @ call_errors cs" by auto
    have "\<exists>r \<in> set (listable_all sprl). Wrapped (''failed to dump '' @ gvr_String r) x \<in> set (errors st')"
      if "DumpCall p (Some x) \<in> set cs" for p x
      using resources_calls_dump_error [OF cs(2) that] cs(3) by auto
    then show "\<exists>cs. fst (world st') = fst (world sinit) @ cs
            \<and> dumped_pages cs = returned_pages cs
            \<and> (\<forall>p x. DumpCall p (Some x) \<in> set cs \<longrightarrow>
                  (\<exists>r \<in> set (listable_all sprl).
                     Wrapped (''failed to dump '' @ gvr_String r) x \<in> set (errors st')))"
      using cs(1) resources_calls_dumped [OF cs(2)]
      by (intro exI [of _ cs]) auto
  qed
  show ?thesis by (intro conjI a b c)
qed

theorem callback_after_every_page_witness:
  "List demo_cluster \<lparr>gvrGroup = [], gvrVersion = ''v1'', gvrResource = ''pods''\<rparr> 2 []
        (world \<lparr>errors = [], logged = [], world = ()\<rparr>)
     = (Inr \<lparr>Items = [''a'', ''b''], Continue = ''k1''\<rparr>, ())
   \<and> demo_cb \<lparr>Items = [''a'', ''b''], Continue = ''k1''\<rparr> () = (Some (Errno ''disk full''), ())
   \<and> paginate demo_cluster demo_cb \<lparr>gvrGroup = [], gvrVersion = ''v1'', gvrResource = ''pods''\<rparr> 2 []
         \<lparr>errors = [], logged = [], world = ()\<rparr>
       = paginate demo_cluster demo_cb \<lparr>gvrGroup = [], gvrVersion = ''v1'', gvrResource = ''pods''\<rparr> 2 ''k1''
           \<lparr>errors = [Wrapped ''failed to dump /v1, Resource=pods'' (Errno ''disk full'')],
            logged = [], world = ()\<rparr>
   \<and> (\<exists>st'. list_groups (observed demo_cluster) (observed_cb demo_cb) 2 Stream demo_sprl
                \<lparr>errors = [], logged = [], world = ([], ())\<rparr> = Some st'
           \<and> dumped_pages (fst (world st'))
               = [\<lparr>Items = [''a'', ''b''], Continue = ''k1''\<rparr>, \<lparr>Items = [''c''], Continue = []\<rparr>])"
proof -
  let ?pods = "\<lparr>gvrGroup = [], gvrVersion = ''v1'', gvrResource = ''pods''\<rparr>"
  let ?sa = "\<lparr>errors = [], logged = [], world = ()\<rparr>"
  let ?sb = "\<lparr>errors = [], logged = [], world = ([] :: string call list, ())\<rparr>"
  let ?pg = "\<lparr>Items = [''a'', ''b''], Continue = ''k1''\<rparr>"
  note t = callback_after_every_page [where cl = demo_cluster and res = ?pods and B = 2
      and key = "[]" and st = ?sa and pg = ?pg and ?w1.0 = "()" and cb = demo_cb
      and d = "Some (Errno ''disk full'')" and ?w2.0 = "()"
      and cl' = demo_cluster and cb' = demo_cb and sinit = ?sb and lw = Stream and sprl = demo_sprl]
  have h1: "List demo_cluster ?pods 2 [] (world ?sa) = (Inr ?pg, ())"
    by (simp add: demo_cluster_def demo_List_def)
  have h2: "demo_cb ?pg () = (Some (Errno ''disk full''), ())"
    by (simp add: demo_cb_def)
  have c1: "paginate demo_cluster demo_cb ?pods 2 [] ?sa
       = paginate demo_cluster demo_cb ?pods 2 ''k1''
           \<lparr>errors = [Wrapped ''failed to dump /v1, Resource=pods'' (Errno ''disk full'')],
            logged = [], world = ()\<rparr>"
    using t h1 h2 by (simp add: gvr_String_def)
  have c2: "\<exists>st'. list_groups (observed demo_cluster) (observed_cb demo_cb) 2 Stream demo_sprl ?sb = Some st'
           \<and> dumped_pages (fst (world st'))
               = [\<lparr>Items = [''a'', ''b''], Continue = ''k1''\<rparr>, \<lparr>Items = [''c''], Continue = []\<rparr>]"
    using demo_list_groups by simp
  show ?thesis by (intro conjI h1 h2 c1 c2)
qed


section \<open>The combined error\<close>

text \<open>
  Claim C7. When the clients can be built and the capability query succeeds, and every
  pagination against the cluster ends, a run of \<open>DiscoverObjects\<close> returns. It has then made
  one pagination for every listable resource of the discovery result, in order, so every
  type has been attempted; the error it returns is the combination of the errors of all
  failed list calls and failed callback invocations of the whole run, one for each, in
  call order; and it returns nil exactly when no call failed. For any cluster and
  callback at all, the run returns whenever each of its paginations ends.
\<close>

theorem errors_combined_at_end:
  assumes "NewDiscoveryClientForConfig cl = None" and "NewForConfig cl = None"
    and "ServerPreferredResources cl w = (Inr sprl, w1)"
    and "\<forall>res st. paginate (observed cl) (observed_cb cb) res (GetBatchSize opts) [] st \<noteq> None"
  shows "(\<exists>ret lg wend cs.
            DiscoverObjects (observed cl) (observed_cb cb) opts (tr, w) = Some (ret, lg, wend)
          \<and> fst wend = tr @ cs
          \<and> resources_calls (listable_all sprl) (GetBatchSize opts) cs
          \<and> ret = Combine (call_errors cs)
          \<and> length (call_errors cs) = length (filter is_failed_call cs)
          \<and> (ret = None \<longleftrightarrow> call_errors cs = [])
          \<and> (ret = None \<longleftrightarrow> (\<forall>c \<in> set cs. \<not> is_failed_call c)))
       \<and> ((\<forall>res st. paginate cla cba res (GetBatchSize optsa) [] st \<noteq> None) \<longrightarrow>
             DiscoverObjects cla cba optsa wa \<noteq> None)"
proof -
  from DiscoverObjects_run [OF assms, of tr] obtain ret lg wend cs where
    d: "DiscoverObjects (observed cl) (observed_cb cb) opts (tr, w) = Some (ret, lg, wend)"
    and cs: "fst wend = tr @ cs"
      "resources_calls (listable_all sprl) (GetBatchSize opts) cs" "ret = Combine (call_errors cs)"
    by blast
  have n: "length (call_errors cs) = length (filter is_failed_call cs)"
    using cs(2) by (rule call_errors_failed)
  have e: "ret = None \<longleftrightarrow> call_errors cs = []" using cs(3) by (simp add: Combine_None_iff)
  have f: "call_errors cs = [] \<longleftrightarrow> (\<forall>c \<in> set cs. \<not> is_failed_call c)"
    using n filter_failed_empty_iff [of cs] by auto
  have a: "\<exists>ret lg wend cs.
            DiscoverObjects (observed cl) (observed_cb cb) opts (tr, w) = Some (ret, lg, wend)
          \<and> fst wend = tr @ cs
          \<and> resources_calls (listable_all sprl) (GetBatchSize opts) cs
          \<and> ret = Combine (call_errors cs)
          \<and> length (call_errors cs) = length (filter is_failed_call cs)
          \<and> (ret = None \<longleftrightarrow> call_errors cs = [])
          \<and> (ret = None \<longleftrightarrow> (\<forall>c \<in> set cs. \<not> is_failed_call c))"
    using d cs n e f
    by (intro exI [of _ ret] exI [of _ lg] exI [of _ wend] exI [of _ cs]) simp
  have b: "(\<forall>res st. paginate cla cba res (GetBatchSize optsa) [] st \<noteq> None) \<longrightarrow>
             DiscoverObjects cla cba optsa wa \<noteq> None"
    using DiscoverObjects_returns [of cla cba optsa wa] by blast
  show ?thesis by (intro conjI a b)
qed

theorem errors_combined_at_end_witness:
  "NewDiscoveryClientForConfig demo_cluster = None \<and> NewForConfig demo_cluster = None
   \<and> ServerPreferredResources demo_cluster () = (Inr demo_sprl, ())
   \<and> (\<forall>res st. paginate (observed demo_cluster) (observed_cb demo_cb) res
                   (GetBatchSize demo_opts) [] st \<noteq> None)
   \<and> (\<exists>ret lg wend cs.
         DiscoverObjects (observed demo_cluster) (observed_cb demo_cb) demo_opts ([], ()) = Some (ret, lg, wend)
       \<and> fst wend = [] @ cs
       \<and> ret = Combine (call_errors cs)
       \<and> length (call_errors cs) = 2
       \<and> ret \<noteq> None)
   \<and> DiscoverObjects (observed demo_cluster) (observed_cb demo_cb) demo_opts ([], ()) \<noteq> None"
proof -
  let ?ret = "Some (MultiErr [Wrapped ''failed to dump /v1, Resource=pods'' (Errno ''disk full''),
                           Wrapped ''failed to list apps/v1, Resource=deployments'' (Errno ''timeout'')])"
  let ?lg = "[''Discovered resources:\<newline>'', ''v1\<newline>'', ''   Pod\<newline>'', ''   Binding\<newline>'',
            ''apps/v1\<newline>'', ''   Deployment\<newline>'',
            ''skipping /v1, Resource=bindings: no list verb\<newline>'']"
  let ?tr = "[ListCall \<lparr>gvrGroup = [], gvrVersion = ''v1'', gvrResource = ''pods''\<rparr> 2
              [] (Inr \<lparr>Items = [''a'', ''b''], Continue = ''k1''\<rparr>),
            DumpCall \<lparr>Items = [''a'', ''b''], Continue = ''k1''\<rparr> (Some (Errno ''disk full'')),
            ListCall \<lparr>gvrGroup = [], gvrVersion = ''v1'', gvrResource = ''pods''\<rparr> 2
              ''k1'' (Inr \<lparr>Items = [''c''], Continue = []\<rparr>),
            DumpCall \<lparr>Items = [''c''], Continue = []\<rparr> None,
            ListCall \<lparr>gvrGroup = ''apps'', gvrVersion = ''v1'', gvrResource = ''deployments''\<rparr>
              2 [] (Inl (Errno ''timeout''))]"
  have h1: "NewDiscoveryClientForConfig demo_cluster = None" by (simp add: demo_cluster_def)
  have h2: "NewForConfig demo_cluster = None" by (simp add: demo_cluster_def)
  have h3: "ServerPreferredResources demo_cluster () = (Inr demo_sprl, ())" by (simp add: demo_cluster_def)
  have h4: "\<forall>res st. paginate (observed demo_cluster) (observed_cb demo_cb) res
                   (GetBatchSize demo_opts) [] st \<noteq> None"
    by (simp add: demo_paginate_returns)
  have run: "DiscoverObjects (observed demo_cluster) (observed_cb demo_cb) demo_opts ([], ())
            = Some (?ret, ?lg, (?tr, ()))"
    by (rule demo_run)
  note t = errors_combined_at_end [OF h1 h2 h3 h4, where tr = "[]" and cla = "observed demo_cluster"
      and cba = "observed_cb demo_cb" and optsa = demo_opts and wa = "([], ())"]
  from t [THEN conjunct1] obtain ret lg wend cs where
    cs: "DiscoverObjects (observed demo_cluster) (observed_cb demo_cb) demo_opts ([], ()) = Some (ret, lg, wend)"
      "fst wend = [] @ cs" "ret = Combine (call_errors cs)"
    by blast
  have eq: "ret = ?ret" "wend = (?tr, ())" using cs(1) unfolding run by simp_all
  have "cs = ?tr" using cs(2) eq(2) by simp
  then have len: "length (call_errors cs) = 2" by simp
  have nn: "ret \<noteq> None" using eq(1) by simp
  have a: "\<exists>ret lg wend cs.
         DiscoverObjects (observed demo_cluster) (observed_cb demo_cb) demo_opts ([], ()) = Some (ret, lg, wend)
       \<and> fst wend = [] @ cs
       \<and> ret = Combine (call_errors cs)
       \<and> length (call_errors cs) = 2
       \<and> ret \<noteq> None"
    by (rule exI [of _ ret], rule exI [of _ lg], rule exI [of _ wend], rule exI [of _ cs])
       (intro conjI cs len nn)
  have b: "DiscoverObjects (observed demo_cluster) (observed_cb demo_cb) demo_opts ([], ()) \<noteq> None"
    using t [THEN conjunct2] h4 by blast
  show ?thesis by (intro conjI h1 h2 h3 h4 a b)
qed

section \<open>The handle cache\<close>

lemma parents_self: "d \<noteq> [] \<Longrightarrow> d \<in> parents d"
  by (cases d) (auto simp: parents_def image_iff intro!: bexI [of _ "length d"])

lemma filepath_Clean_nonempty: "filepath_Clean p \<noteq> []"
  by (simp add: filepath_Clean_def Let_def)

lemma filepath_Dir_nonempty: "filepath_Dir p \<noteq> []"
  by (simp add: filepath_Dir_def filepath_Clean_nonempty)

lemma dirDumper_file_hit:
  "openFiles d p = Some f \<Longrightarrow> dirDumper_file flt d p fs = (Inr f, d, fs)"
  by (simp add: dirDumper_file_def)

lemma dirDumper_file_miss:
  assumes "openFiles d p = None"
  shows "dirDumper_file flt d p fs =
     (if flt (OpMkdirAll (filepath_Dir p)) (clock fs)
      then (Inl (Wrapped (''failed to create directory '' @ quoted (filepath_Dir p)) (Errno ''mkdir'')), d, tick fs)
      else if flt (OpCreate p) (Suc (clock fs))
      then (Inl (Wrapped (''failed to create file '' @ quoted p) (Errno ''open'')), d,
            tick (tick (fs\<lparr>dirs := dirs fs \<union> parents (filepath_Dir p)\<rparr>)))
      else (Inr (next_fd fs), d\<lparr>openFiles := (openFiles d)(p \<mapsto> next_fd fs)\<rparr>,
            tick (tick (fs\<lparr>dirs := dirs fs \<union> parents (filepath_Dir p)\<rparr>)
                    \<lparr>fds := fds fs @ [(next_fd fs, p)], next_fd := Suc (next_fd fs)\<rparr>)))"
  using assms parents_self [OF filepath_Dir_nonempty, of p]
  by (simp add: dirDumper_file_def os_MkdirAll_def os_Create_def tick_def)

lemma cache_inv_map_of:
  "cache_inv d fs \<Longrightarrow> openFiles d p = Some f \<Longrightarrow> map_of (fds fs) f = Some p"
  by (auto simp: cache_inv_def)

lemma cache_inv_cong:
  "fds fs' = fds fs \<Longrightarrow> next_fd fs' = next_fd fs \<Longrightarrow> openFiles d' = openFiles d \<Longrightarrow>
   cache_inv d' fs' = cache_inv d fs"
  by (simp add: cache_inv_def)

lemma cache_inv_create:
  assumes "cache_inv d fs" and "openFiles d p = None"
    and "fds fs' = fds fs @ [(next_fd fs, p)]" and "next_fd fs' = Suc (next_fd fs)"
    and "openFiles d' = (openFiles d)(p \<mapsto> next_fd fs)"
  shows "cache_inv d' fs'"
proof -
  have fresh: "\<forall>e \<in> set (fds fs). fst e \<noteq> next_fd fs \<and> snd e \<noteq> p"
    using assms(1,2) by (auto simp: cache_inv_def)
  have 1: "distinct (map fst (fds fs'))"
    using assms(1,3) fresh by (auto simp: cache_inv_def)
  have 2: "\<forall>e \<in> set (fds fs'). fst e < next_fd fs' \<and> openFiles d' (snd e) = Some (fst e)"
    using assms fresh by (fastforce simp: cache_inv_def)
  have 3: "\<forall>q f. openFiles d' q = Some f \<longrightarrow> (f, q) \<in> set (fds fs')"
    using assms by (auto simp: cache_inv_def)
  show ?thesis unfolding cache_inv_def using 1 2 3 by blast
qed

lemma dirDumper_file_inv:
  assumes "cache_inv d fs" and "dirDumper_file flt d p fs = (r, d', fs')"
  shows "cache_inv d' fs' \<and> openFiles d \<subseteq>\<^sub>m openFiles d' \<and> dir d' = dir d
         \<and> sharedBuf d' = sharedBuf d \<and> written fs' = written fs
         \<and> (\<forall>f. r = Inr f \<longrightarrow> openFiles d' p = Some f)
         \<and> (\<forall>e. r = Inl e \<longrightarrow> d' = d)"
proof (cases "openFiles d p")
  case (Some f)
  then show ?thesis using assms by (auto simp: dirDumper_file_hit)
next
  case None
  let ?fs2 = "tick (tick (fs\<lparr>dirs := dirs fs \<union> parents (filepath_Dir p)\<rparr>))"
  consider (mk) "flt (OpMkdirAll (filepath_Dir p)) (clock fs)"
    | (cr) "\<not> flt (OpMkdirAll (filepath_Dir p)) (clock fs)" "flt (OpCreate p) (Suc (clock fs))"
    | (ok) "\<not> flt (OpMkdirAll (filepath_Dir p)) (clock fs)" "\<not> flt (OpCreate p) (Suc (clock fs))"
    by blast
  then show ?thesis
  proof cases
    case mk
    have "dirDumper_file flt d p fs =
      (Inl (Wrapped (''failed to create directory '' @ quoted (filepath_Dir p)) (Errno ''mkdir'')), d, tick fs)"
      using mk by (simp only: dirDumper_file_miss [OF None] if_True)
    with assms(2) have "(r, d', fs') =
      (Inl (Wrapped (''failed to create directory '' @ quoted (filepath_Dir p)) (Errno ''mkdir'')), d, tick fs)"
      by simp
    then have r: "d' = d" "fs' = tick fs" "\<exists>e. r = Inl e" by blast+
    have "cache_inv d (tick fs)"
      using assms(1) cache_inv_cong [of "tick fs" fs d d] by (simp add: tick_def)
    then show ?thesis using r by (auto simp: tick_def)
  next
    case cr
    have "dirDumper_file flt d p fs =
      (Inl (Wrapped (''failed to create file '' @ quoted p) (Errno ''open'')), d, ?fs2)"
      using cr by (simp only: dirDumper_file_miss [OF None] if_True if_False)
    with assms(2) have "(r, d', fs') =
      (Inl (Wrapped (''failed to create file '' @ quoted p) (Errno ''open'')), d, ?fs2)"
      by simp
    then have r: "d' = d" "fs' = ?fs2" "\<exists>e. r = Inl e" by blast+
    have "cache_inv d ?fs2"
      using assms(1) cache_inv_cong [of ?fs2 fs d d] by (simp add: tick_def)
    then show ?thesis using r by (auto simp: tick_def)
  next
    case ok
    have "dirDumper_file flt d p fs =
      (Inr (next_fd fs), d\<lparr>openFiles := (openFiles d)(p \<mapsto> next_fd fs)\<rparr>,
       ?fs2\<lparr>fds := fds fs @ [(next_fd fs, p)], next_fd := Suc (next_fd fs)\<rparr>)"
      using ok by (simp add: dirDumper_file_miss [OF None] tick_def)
    with assms(2) have "(r, d', fs') =
      (Inr (next_fd fs), d\<lparr>openFiles := (openFiles d)(p \<mapsto> next_fd fs)\<rparr>,
       ?fs2\<lparr>fds := fds fs @ [(next_fd fs, p)], next_fd := Suc (next_fd fs)\<rparr>)"
      by simp
    then have r: "r = Inr (next_fd fs)" "d' = d\<lparr>openFiles := (openFiles d)(p \<mapsto> next_fd fs)\<rparr>"
      "fs' = ?fs2\<lparr>fds := fds fs @ [(next_fd fs, p)], next_fd := Suc (next_fd fs)\<rparr>"
      by blast+
    have "cache_inv d' fs'"
      using assms(1) None by (rule cache_inv_create) (simp_all add: r tick_def)
    moreover have "openFiles d \<subseteq>\<^sub>m openFiles d'" using None r(2) by (auto simp: map_le_def)
    ultimately show ?thesis using r by (simp add: tick_def)
  qed
qed

lemma writeToFile_inv:
  assumes "cache_inv d fs" and "writeToFile flt d q b fs = (r, d', fs')"
  shows "cache_inv d' fs' \<and> openFiles d \<subseteq>\<^sub>m openFiles d' \<and> dir d' = dir d
         \<and> sharedBuf d' = sharedBuf d
         \<and> written fs' = written fs @ (if r = None then [(q, b)] else [])"
proof -
  obtain x d1 fs1 where f: "dirDumper_file flt d q fs = (x, d1, fs1)"
    by (cases "dirDumper_file flt d q fs") auto
  note i = dirDumper_file_inv [OF assms(1) f]
  show ?thesis
  proof (cases x)
    case (Inl e)
    then show ?thesis using assms(2) f i by (auto simp: writeToFile_def)
  next
    case (Inr h)
    then have h: "openFiles d1 q = Some h" using i by simp
    have m: "map_of (fds fs1) h = Some q" using i h by (auto intro: cache_inv_map_of)
    have ci: "cache_inv d1 (tick fs1)" "cache_inv d1 (tick (fs1\<lparr>written := written fs1 @ [(q, b)]\<rparr>))"
      using i cache_inv_cong [of "tick fs1" fs1 d1 d1]
        cache_inv_cong [of "tick (fs1\<lparr>written := written fs1 @ [(q, b)]\<rparr>)" fs1 d1 d1]
      by (simp_all add: tick_def)
    show ?thesis using assms(2) f i Inr m ci
      by (auto simp: writeToFile_def file_Write_def tick_def split: if_splits)
  qed
qed

lemma writeToFile_sound:
  assumes "cache_inv d fs" and "sound_path flt q" and "writeToFile flt d q b fs = (r, d', fs')"
  shows "r = None"
proof (cases "openFiles d q")
  case (Some h)
  have "map_of (fds fs) h = Some q" using assms(1) Some by (rule cache_inv_map_of)
  then show ?thesis using assms(2,3) Some
    by (auto simp: writeToFile_def dirDumper_file_hit file_Write_def sound_path_def split: if_splits)
next
  case None
  have "map_of (fds fs) (next_fd fs) = None"
    using assms(1) by (force simp: cache_inv_def map_of_eq_None_iff)
  then have "map_of (fds fs @ [(next_fd fs, q)]) (next_fd fs) = Some q"
    by (simp add: map_add_def)
  then show ?thesis using assms(2,3)
    by (auto simp: writeToFile_def dirDumper_file_miss [OF None] file_Write_def sound_path_def tick_def
             split: if_splits)
qed

section \<open>Writing a record to its destinations\<close>

lemma Dump_loop_encode_failed:
  "enc ob = Inl err \<Longrightarrow>
   Dump_loop flt enc (ob # obs) errs d fs
   = Dump_loop flt enc obs (errs @ [Wrapped ''failed to encode object'' err]) (d\<lparr>sharedBuf := []\<rparr>) fs"
  by simp

lemma writeToFile_dir:
  "writeToFile flt d q b fs = (r, d', fs') \<Longrightarrow> dir d' = dir d"
  by (auto simp: writeToFile_def dirDumper_file_def split: option.splits prod.splits sum.splits)

lemma Dump_loop_write_all:
  assumes "enc ob = Inr p"
  shows "Dump_loop flt enc (ob # obs) errs d fs
         = (case write_all flt (destinations (dir d) ob) p errs (d\<lparr>sharedBuf := p\<rparr>) fs of
              (errs1, d1, fs1) \<Rightarrow> Dump_loop flt enc obs errs1 d1 fs1)"
  using assms by (simp add: destinations_def split: prod.splits)

lemma write_all_inv:
  assumes "cache_inv d fs" and "write_all flt qs b errs d fs = (errs', d', fs')"
  shows "cache_inv d' fs' \<and> openFiles d \<subseteq>\<^sub>m openFiles d' \<and> dir d' = dir d
         \<and> prefix errs errs'
         \<and> (\<exists>new. written fs' = written fs @ new
                \<and> subseq new (map (\<lambda>q. (q, b)) qs)
                \<and> length errs' + length new = length errs + length qs)"
  using assms
proof (induction qs arbitrary: errs d fs)
  case Nil
  then show ?case by simp
next
  case (Cons q qs)
  obtain r d1 fs1 where w: "writeToFile flt d q b fs = (r, d1, fs1)"
    by (cases "writeToFile flt d q b fs") auto
  note i = writeToFile_inv [OF Cons.prems(1) w]
  have rest: "write_all flt qs b (record_error r errs) d1 fs1 = (errs', d', fs')"
    using Cons.prems(2) w by simp
  from Cons.IH [OF _ rest] i obtain new where
    n: "cache_inv d' fs'" "openFiles d1 \<subseteq>\<^sub>m openFiles d'" "dir d' = dir d1"
       "prefix (record_error r errs) errs'" "written fs' = written fs1 @ new"
       "subseq new (map (\<lambda>q. (q, b)) qs)"
       "length errs' + length new = length (record_error r errs) + length qs"
    by auto
  have le: "openFiles d \<subseteq>\<^sub>m openFiles d'" using i n(2) by (auto intro: map_le_trans)
  have pe: "prefix errs errs'"
    using n(4) by (cases r) (auto simp: record_error_def dest: append_prefixD)
  have dd: "dir d' = dir d" using n(3) i by simp
  show ?case
  proof (cases r)
    case None
    then have "written fs' = written fs @ ((q, b) # new)" using i n(5) by simp
    moreover have "subseq ((q, b) # new) (map (\<lambda>q. (q, b)) (q # qs))" using n(6) by simp
    moreover have "length errs' + length ((q, b) # new) = length errs + length (q # qs)"
      using n(7) None by (simp add: record_error_def)
    ultimately have "\<exists>new. written fs' = written fs @ new
                \<and> subseq new (map (\<lambda>q. (q, b)) (q # qs))
                \<and> length errs' + length new = length errs + length (q # qs)"
      by blast
    then show ?thesis using n(1) le dd pe by simp
  next
    case (Some e)
    then have "written fs' = written fs @ new" using i n(5) by simp
    moreover have "subseq new (map (\<lambda>q. (q, b)) (q # qs))" using n(6) by (simp add: list_emb_Cons)
    moreover have "length errs' + length new = length errs + length (q # qs)"
      using n(7) Some by (simp add: record_error_def)
    ultimately have "\<exists>new. written fs' = written fs @ new
                \<and> subseq new (map (\<lambda>q. (q, b)) (q # qs))
                \<and> length errs' + length new = length errs + length (q # qs)"
      by blast
    then show ?thesis using n(1) le dd pe by simp
  qed
qed

lemma write_all_sound:
  assumes "cache_inv d fs" and "sound_path flt x" and "write_all flt qs b errs d fs = (errs', d', fs')"
  shows "filter (\<lambda>e. fst e = x) (written fs')
         = filter (\<lambda>e. fst e = x) (written fs) @ map (\<lambda>q. (q, b)) (filter (\<lambda>q. q = x) qs)"
  using assms
proof (induction qs arbitrary: errs d fs)
  case Nil
  then show ?case by simp
next
  case (Cons q qs)
  obtain r d1 fs1 where w: "writeToFile flt d q b fs = (r, d1, fs1)"
    by (cases "writeToFile flt d q b fs") auto
  note i = writeToFile_inv [OF Cons.prems(1) w]
  have rest: "write_all flt qs b (record_error r errs) d1 fs1 = (errs', d', fs')"
    using Cons.prems(3) w by simp
  have ih: "filter (\<lambda>e. fst e = x) (written fs')
         = filter (\<lambda>e. fst e = x) (written fs1) @ map (\<lambda>q. (q, b)) (filter (\<lambda>q. q = x) qs)"
    using Cons.IH [OF _ Cons.prems(2) rest] i by simp
  show ?case
  proof (cases "q = x")
    case True
    then have "r = None" using writeToFile_sound [OF Cons.prems(1) _ w] Cons.prems(2) by simp
    then show ?thesis using ih i True by simp
  next
    case False
    then show ?thesis using ih i by simp
  qed
qed

lemma write_all_all_sound:
  assumes "cache_inv d fs" and "\<forall>q \<in> set qs. sound_path flt q"
    and "write_all flt qs b errs d fs = (errs', d', fs')"
  shows "written fs' = written fs @ map (\<lambda>q. (q, b)) qs \<and> errs' = errs"
  using assms
proof (induction qs arbitrary: errs d fs)
  case Nil
  then show ?case by simp
next
  case (Cons q qs)
  obtain r d1 fs1 where w: "writeToFile flt d q b fs = (r, d1, fs1)"
    by (cases "writeToFile flt d q b fs") auto
  note i = writeToFile_inv [OF Cons.prems(1) w]
  have r: "r = None" using writeToFile_sound [OF Cons.prems(1) _ w] Cons.prems(2) by simp
  have rest: "write_all flt qs b errs d1 fs1 = (errs', d', fs')"
    using Cons.prems(3) w r by (simp add: record_error_def)
  show ?case using Cons.IH [OF _ _ rest] i r Cons.prems(2) by simp
qed

lemma cache_inv_sharedBuf [simp]: "cache_inv (d\<lparr>sharedBuf := b\<rparr>) fs = cache_inv d fs"
  by (simp add: cache_inv_def)

lemma Dump_loop_append:
  "Dump_loop flt enc (xs @ ys) errs d fs
   = (case Dump_loop flt enc xs errs d fs of (errs1, d1, fs1) \<Rightarrow> Dump_loop flt enc ys errs1 d1 fs1)"
proof (induction xs arbitrary: errs d fs)
  case Nil
  then show ?case by simp
next
  case (Cons ob xs)
  show ?case
  proof (cases "enc ob")
    case (Inl e)
    then show ?thesis using Cons.IH by simp
  next
    case (Inr p)
    show ?thesis
      using Cons.IH
      by (simp only: append_Cons Dump_loop_write_all [where enc = enc and ob = ob, OF Inr] split: prod.splits) simp
  qed
qed

lemma deliveries_Inl: "enc ob = Inl e \<Longrightarrow> deliveries dr enc ob = []"
  by (simp add: deliveries_def)

lemma deliveries_Inr: "enc ob = Inr p \<Longrightarrow> deliveries dr enc ob = map (\<lambda>q. (q, p)) (destinations dr ob)"
  by (simp add: deliveries_def)

lemma Dump_loop_inv:
  assumes "cache_inv d fs" and "Dump_loop flt enc obs errs d fs = (errs', d', fs')"
  shows "cache_inv d' fs' \<and> openFiles d \<subseteq>\<^sub>m openFiles d' \<and> dir d' = dir d
         \<and> prefix errs errs'
         \<and> (\<exists>new. written fs' = written fs @ new
                \<and> subseq new (concat (map (deliveries (dir d) enc) obs))
                \<and> length errs' + length new
                    = length errs + length (concat (map (deliveries (dir d) enc) obs))
                      + length (encode_errors enc obs))"
  using assms
proof (induction obs arbitrary: errs d fs)
  case Nil
  then show ?case by (simp add: encode_errors_def)
next
  case (Cons ob obs)
  show ?case
  proof (cases "enc ob")
    case (Inl e)
    let ?d1 = "d\<lparr>sharedBuf := []\<rparr>"
    have rest: "Dump_loop flt enc obs (errs @ [Wrapped ''failed to encode object'' e]) ?d1 fs = (errs', d', fs')"
      using Cons.prems(2) Inl by simp
    have ci: "cache_inv ?d1 fs" using Cons.prems(1) by simp
    from Cons.IH [OF ci rest] obtain new where
      n: "cache_inv d' fs'" "openFiles ?d1 \<subseteq>\<^sub>m openFiles d'" "dir d' = dir ?d1"
         "prefix (errs @ [Wrapped ''failed to encode object'' e]) errs'"
         "written fs' = written fs @ new"
         "subseq new (concat (map (deliveries (dir ?d1) enc) obs))"
         "length errs' + length new
            = length (errs @ [Wrapped ''failed to encode object'' e])
              + length (concat (map (deliveries (dir ?d1) enc) obs)) + length (encode_errors enc obs)"
      by blast
    have pe: "prefix errs errs'" using n(4) by (rule append_prefixD)
    have "\<exists>new. written fs' = written fs @ new
                \<and> subseq new (concat (map (deliveries (dir d) enc) (ob # obs)))
                \<and> length errs' + length new
                    = length errs + length (concat (map (deliveries (dir d) enc) (ob # obs)))
                      + length (encode_errors enc (ob # obs))"
      using n(5,6,7) Inl by (intro exI [of _ new]) (simp add: deliveries_Inl encode_errors_def)
    then show ?thesis using n(1,2,3) pe by simp
  next
    case (Inr p)
    let ?d0 = "d\<lparr>sharedBuf := p\<rparr>"
    obtain errs1 d1 fs1 where w: "write_all flt (destinations (dir d) ob) p errs ?d0 fs = (errs1, d1, fs1)"
      by (cases "write_all flt (destinations (dir d) ob) p errs ?d0 fs") auto
    have rest: "Dump_loop flt enc obs errs1 d1 fs1 = (errs', d', fs')"
      using Cons.prems(2) w by (simp only: Dump_loop_write_all [where enc = enc and ob = ob, OF Inr]) simp
    have ci: "cache_inv ?d0 fs" using Cons.prems(1) by simp
    from write_all_inv [OF ci w] obtain new1 where
      a: "cache_inv d1 fs1" "openFiles ?d0 \<subseteq>\<^sub>m openFiles d1" "dir d1 = dir ?d0"
         "prefix errs errs1" "written fs1 = written fs @ new1"
         "subseq new1 (map (\<lambda>q. (q, p)) (destinations (dir d) ob))"
         "length errs1 + length new1 = length errs + length (destinations (dir d) ob)"
      by blast
    from Cons.IH [OF a(1) rest] obtain new where
      n: "cache_inv d' fs'" "openFiles d1 \<subseteq>\<^sub>m openFiles d'" "dir d' = dir d1"
         "prefix errs1 errs'" "written fs' = written fs1 @ new"
         "subseq new (concat (map (deliveries (dir d1) enc) obs))"
         "length errs' + length new
            = length errs1 + length (concat (map (deliveries (dir d1) enc) obs))
              + length (encode_errors enc obs)"
      by blast
    have dd: "dir d1 = dir d" using a(3) by simp
    have le: "openFiles d \<subseteq>\<^sub>m openFiles d'" using a(2) n(2) by (auto intro: map_le_trans)
    have pe: "prefix errs errs'" using a(4) n(4) by (rule prefix_order.trans)
    have s: "subseq (new1 @ new) (concat (map (deliveries (dir d) enc) (ob # obs)))"
      using a(6) n(6) dd Inr by (simp add: deliveries_Inr list_emb_append_mono)
    have l: "length errs' + length (new1 @ new)
                    = length errs + length (concat (map (deliveries (dir d) enc) (ob # obs)))
                      + length (encode_errors enc (ob # obs))"
      using a(7) n(7) dd Inr by (simp add: deliveries_Inr encode_errors_def)
    have "\<exists>new. written fs' = written fs @ new
                \<and> subseq new (concat (map (deliveries (dir d) enc) (ob # obs)))
                \<and> length errs' + length new
                    = length errs + length (concat (map (deliveries (dir d) enc) (ob # obs)))
                      + length (encode_errors enc (ob # obs))"
      using a(5) n(5) s l by (intro exI [of _ "new1 @ new"]) simp
    then show ?thesis using n(1,3) dd le pe by simp
  qed
qed

lemma Dump_loop_sound:
  assumes "cache_inv d fs" and "sound_path flt x" and "Dump_loop flt enc obs errs d fs = (errs', d', fs')"
  shows "filter (\<lambda>e. fst e = x) (written fs')
         = filter (\<lambda>e. fst e = x) (written fs)
           @ filter (\<lambda>e. fst e = x) (concat (map (deliveries (dir d) enc) obs))"
  using assms
proof (induction obs arbitrary: errs d fs)
  case Nil
  then show ?case by simp
next
  case (Cons ob obs)
  show ?case
  proof (cases "enc ob")
    case (Inl e)
    let ?d1 = "d\<lparr>sharedBuf := []\<rparr>"
    have rest: "Dump_loop flt enc obs (errs @ [Wrapped ''failed to encode object'' e]) ?d1 fs = (errs', d', fs')"
      using Cons.prems(3) Inl by simp
    have ci: "cache_inv ?d1 fs" using Cons.prems(1) by simp
    show ?thesis using Cons.IH [OF ci Cons.prems(2) rest] Inl by (simp add: deliveries_Inl)
  next
    case (Inr p)
    let ?d0 = "d\<lparr>sharedBuf := p\<rparr>"
    obtain errs1 d1 fs1 where w: "write_all flt (destinations (dir d) ob) p errs ?d0 fs = (errs1, d1, fs1)"
      by (cases "write_all flt (destinations (dir d) ob) p errs ?d0 fs") auto
    have rest: "Dump_loop flt enc obs errs1 d1 fs1 = (errs', d', fs')"
      using Cons.prems(3) w by (simp only: Dump_loop_write_all [where enc = enc and ob = ob, OF Inr]) simp
    have ci: "cache_inv ?d0 fs" using Cons.prems(1) by simp
    have a: "cache_inv d1 fs1" "dir d1 = dir d" using write_all_inv [OF ci w] by simp_all
    have f: "map (\<lambda>q. (q, p)) (filter (\<lambda>q. q = x) (destinations (dir d) ob))
             = filter (\<lambda>e. fst e = x) (map (\<lambda>q. (q, p)) (destinations (dir d) ob))"
      by (simp add: filter_map comp_def)
    show ?thesis
      using Cons.IH [OF a(1) Cons.prems(2) rest] write_all_sound [OF ci Cons.prems(2) w] a(2) Inr f
      by (simp add: deliveries_Inr)
  qed
qed

lemma Dump_loop_all_sound:
  assumes "cache_inv d fs"
    and "\<forall>ob \<in> set obs. \<forall>q \<in> set (destinations (dir d) ob). sound_path flt q"
    and "Dump_loop flt enc obs errs d fs = (errs', d', fs')"
  shows "written fs' = written fs @ concat (map (deliveries (dir d) enc) obs)
         \<and> errs' = errs @ encode_errors enc obs"
  using assms
proof (induction obs arbitrary: errs d fs)
  case Nil
  then show ?case by (simp add: encode_errors_def)
next
  case (Cons ob obs)
  show ?case
  proof (cases "enc ob")
    case (Inl e)
    let ?d1 = "d\<lparr>sharedBuf := []\<rparr>"
    have rest: "Dump_loop flt enc obs (errs @ [Wrapped ''failed to encode object'' e]) ?d1 fs = (errs', d', fs')"
      using Cons.prems(3) Inl by simp
    have ci: "cache_inv ?d1 fs" using Cons.prems(1) by simp
    show ?thesis using Cons.IH [OF ci _ rest] Cons.prems(2) Inl
      by (simp add: deliveries_Inl encode_errors_def)
  next
    case (Inr p)
    let ?d0 = "d\<lparr>sharedBuf := p\<rparr>"
    obtain errs1 d1 fs1 where w: "write_all flt (destinations (dir d) ob) p errs ?d0 fs = (errs1, d1, fs1)"
      by (cases "write_all flt (destinations (dir d) ob) p errs ?d0 fs") auto
    have rest: "Dump_loop flt enc obs errs1 d1 fs1 = (errs', d', fs')"
      using Cons.prems(3) w by (simp only: Dump_loop_write_all [where enc = enc and ob = ob, OF Inr]) simp
    have ci: "cache_inv ?d0 fs" using Cons.prems(1) by simp
    have a: "cache_inv d1 fs1" "dir d1 = dir d" using write_all_inv [OF ci w] by simp_all
    have b: "written fs1 = written fs @ map (\<lambda>q. (q, p)) (destinations (dir d) ob)" "errs1 = errs"
      using write_all_all_sound [OF ci _ w] Cons.prems(2) by simp_all
    show ?thesis
      using Cons.IH [OF a(1) _ rest] Cons.prems(2) a(2) b Inr
      by (simp add: deliveries_Inr encode_errors_def)
  qed
qed

lemma Errors_Combine: "Errors (Combine errs) = concat (map flatten_error errs)"
proof (cases errs)
  case Nil
  then show ?thesis by (simp add: Errors_def Combine_def)
next
  case (Cons e es)
  then show ?thesis by (cases es) (simp_all add: Errors_def Combine_def)
qed

lemma demo_cache_inv: "cache_inv demo_dumper demo_fs"
  by (simp add: cache_inv_def demo_dumper_def demo_fs_def)

lemma sound_path_no_faults: "sound_path no_faults q"
  by (simp add: sound_path_def no_faults_def)

lemma Dump_eq:
  "Dump flt enc l d fs = (r, d', fs') \<longleftrightarrow>
   (\<exists>errs. Dump_loop flt enc (Items l) [] d fs = (errs, d', fs') \<and> r = Combine errs)"
  by (auto simp: Dump_def split: prod.splits)

lemma prefix_record_error: "prefix errs (record_error r errs)"
  by (cases r) (simp_all add: record_error_def)

lemma write_all_prefix:
  "write_all flt qs b errs d fs = (errs', d', fs') \<Longrightarrow> prefix errs errs'"
proof (induction qs arbitrary: errs d fs)
  case Nil
  then show ?case by simp
next
  case (Cons q qs)
  obtain r d1 fs1 where w: "writeToFile flt d q b fs = (r, d1, fs1)"
    by (cases "writeToFile flt d q b fs") auto
  have "write_all flt qs b (record_error r errs) d1 fs1 = (errs', d', fs')"
    using Cons.prems w by simp
  from Cons.IH [OF this] show ?case
    using prefix_record_error [of errs r] by (rule prefix_order.trans [rotated])
qed

lemma Dump_loop_prefix:
  "Dump_loop flt enc obs errs d fs = (errs', d', fs') \<Longrightarrow> prefix errs errs'"
proof (induction obs arbitrary: errs d fs)
  case Nil
  then show ?case by simp
next
  case (Cons ob obs)
  show ?case
  proof (cases "enc ob")
    case (Inl e)
    have "Dump_loop flt enc obs (errs @ [Wrapped ''failed to encode object'' e]) (d\<lparr>sharedBuf := []\<rparr>) fs
          = (errs', d', fs')"
      using Cons.prems Inl by simp
    from Cons.IH [OF this] show ?thesis by (rule append_prefixD)
  next
    case (Inr p)
    obtain errs1 d1 fs1 where
      w: "write_all flt (destinations (dir d) ob) p errs (d\<lparr>sharedBuf := p\<rparr>) fs = (errs1, d1, fs1)"
      by (cases "write_all flt (destinations (dir d) ob) p errs (d\<lparr>sharedBuf := p\<rparr>) fs") auto
    have "Dump_loop flt enc obs errs1 d1 fs1 = (errs', d', fs')"
      using Cons.prems w by (simp only: Dump_loop_write_all [where enc = enc and ob = ob, OF Inr]) simp
    from Cons.IH [OF this] write_all_prefix [OF w] show ?thesis
      by (rule prefix_order.trans [rotated])
  qed
qed

lemma demo_dump_written:
  "written (snd (snd (Dump demo_faults demo_enc (demo_page [demo_pod, demo_bad, demo_node])
                        demo_dumper demo_fs)))
   = [(''out/objects-Pod.json'', ''pod-a\<newline>''),
      (''out/split/ns1/__all__.json'', ''pod-a\<newline>''),
      (''out/objects-Node.json'', ''node-a\<newline>'')]"
  by code_simp

lemma demo_dump_error:
  "fst (Dump demo_faults demo_enc (demo_page [demo_pod, demo_bad, demo_node]) demo_dumper demo_fs)
   = Some (MultiErr [Wrapped ''failed to copy to file'' (Errno ''write''),
                     Wrapped ''failed to encode object'' (Errno ''json: unsupported value'')])"
  by code_simp


section \<open>A record that cannot be encoded\<close>

text \<open>
  Claim C10. When the JSON encoding of a record fails, the step of \<open>Dump\<close> for that
  record leaves the file system and the handle cache as they are (nothing is written,
  to no destination, \<open>objects-<kind>\<close> included) and appends the encoding failure to
  the errors; the records after it are processed from that state; and the error that
  \<open>Dump\<close> returns for the page is not nil and has the encoding failure among its
  errors.
\<close>

theorem encode_failure_writes_nothing:
  assumes "enc ob = Inl err"
  shows "Dump_loop flt enc [ob] errs d fs
         = (errs @ [Wrapped ''failed to encode object'' err], d\<lparr>sharedBuf := []\<rparr>, fs)
       \<and> Dump flt enc \<lparr>Items = pre @ ob # post, Continue = c\<rparr> d fs
         = (case Dump_loop flt enc pre [] d fs of
              (errs1, d1, fs1) \<Rightarrow>
                (case Dump_loop flt enc post (errs1 @ [Wrapped ''failed to encode object'' err])
                        (d1\<lparr>sharedBuf := []\<rparr>) fs1 of
                   (errs2, d2, fs2) \<Rightarrow> (Combine errs2, d2, fs2)))
       \<and> fst (Dump flt enc \<lparr>Items = pre @ ob # post, Continue = c\<rparr> d fs) \<noteq> None
       \<and> Wrapped ''failed to encode object'' err
            \<in> set (Errors (fst (Dump flt enc \<lparr>Items = pre @ ob # post, Continue = c\<rparr> d fs)))"
proof -
  let ?e = "Wrapped ''failed to encode object'' err"
  have one: "Dump_loop flt enc [ob] errs d fs = (errs @ [?e], d\<lparr>sharedBuf := []\<rparr>, fs)"
    using assms by simp
  obtain errs1 d1 fs1 where a: "Dump_loop flt enc pre [] d fs = (errs1, d1, fs1)"
    by (cases "Dump_loop flt enc pre [] d fs") auto
  obtain errs2 d2 fs2 where b:
    "Dump_loop flt enc post (errs1 @ [?e]) (d1\<lparr>sharedBuf := []\<rparr>) fs1 = (errs2, d2, fs2)"
    by (cases "Dump_loop flt enc post (errs1 @ [?e]) (d1\<lparr>sharedBuf := []\<rparr>) fs1") auto
  have loop: "Dump_loop flt enc (pre @ ob # post) [] d fs = (errs2, d2, fs2)"
    using a b assms by (simp add: Dump_loop_append)
  have page: "Dump flt enc \<lparr>Items = pre @ ob # post, Continue = c\<rparr> d fs = (Combine errs2, d2, fs2)"
    using loop by (simp add: Dump_def)
  have "prefix (errs1 @ [?e]) errs2" using b by (rule Dump_loop_prefix)
  then have mem: "?e \<in> set errs2" by (auto simp: prefix_def)
  then have ne: "Combine errs2 \<noteq> None" by (auto simp: Combine_None_iff)
  have "?e \<in> set (Errors (Combine errs2))"
    using mem by (auto simp: Errors_Combine intro!: bexI [of _ ?e])
  then show ?thesis using one a b page ne by simp
qed



theorem encode_failure_writes_nothing_witness:
  "demo_enc demo_bad = Inl (Errno ''json: unsupported value'')
   \<and> Dump_loop demo_faults demo_enc [demo_bad] [] demo_dumper demo_fs
       = ([Wrapped ''failed to encode object'' (Errno ''json: unsupported value'')],
          demo_dumper\<lparr>sharedBuf := []\<rparr>, demo_fs)
   \<and> Wrapped ''failed to encode object'' (Errno ''json: unsupported value'')
        \<in> set (Errors (fst (Dump demo_faults demo_enc (demo_page [demo_pod, demo_bad, demo_node])
                               demo_dumper demo_fs)))
   \<and> written (snd (snd (Dump demo_faults demo_enc (demo_page [demo_pod, demo_bad, demo_node])
                        demo_dumper demo_fs)))
       = [(''out/objects-Pod.json'', ''pod-a\<newline>''),
          (''out/split/ns1/__all__.json'', ''pod-a\<newline>''),
          (''out/objects-Node.json'', ''node-a\<newline>'')]"
proof -
  have h: "demo_enc demo_bad = Inl (Errno ''json: unsupported value'')"
    by (simp add: demo_enc_def demo_bad_def)
  note t = encode_failure_writes_nothing [where enc = demo_enc and ob = demo_bad
      and flt = demo_faults and errs = "[]" and d = demo_dumper and fs = demo_fs
      and pre = "[demo_pod]" and post = "[demo_node]" and c = "[]", OF h]
  have p: "demo_page [demo_pod, demo_bad, demo_node] = \<lparr>Items = [demo_pod] @ demo_bad # [demo_node], Continue = []\<rparr>"
    by (simp add: demo_page_def)
  have a: "Dump_loop demo_faults demo_enc [demo_bad] [] demo_dumper demo_fs
       = ([Wrapped ''failed to encode object'' (Errno ''json: unsupported value'')],
          demo_dumper\<lparr>sharedBuf := []\<rparr>, demo_fs)"
    using t by simp
  have b: "Wrapped ''failed to encode object'' (Errno ''json: unsupported value'')
        \<in> set (Errors (fst (Dump demo_faults demo_enc (demo_page [demo_pod, demo_bad, demo_node])
                               demo_dumper demo_fs)))"
    using t unfolding p by blast
  show ?thesis by (intro conjI h a b demo_dump_written)
qed

lemma destinations_distinct:
  assumes "GetNamespace ob \<noteq> []"
  shows "distinct (destinations dr ob) \<longleftrightarrow> GetKind ob \<noteq> ''__all__''"
proof -
  have "''__all__.json'' = GetKind ob @ ''.json'' \<longleftrightarrow> GetKind ob = ''__all__''"
  proof -
    have "''__all__.json'' = ''__all__'' @ ''.json''" by simp
    then have "''__all__.json'' = GetKind ob @ ''.json'' \<longleftrightarrow> ''__all__'' @ ''.json'' = GetKind ob @ ''.json''"
      by (simp only:)
    also have "\<dots> \<longleftrightarrow> GetKind ob = ''__all__''" by (simp only: append_same_eq) auto
    finally show ?thesis .
  qed
  then show ?thesis using assms by (auto simp: destinations_def)
qed

lemma deliveries_paths_card:
  assumes "enc ob = Inr p" and "GetNamespace ob \<noteq> []" and "GetKind ob \<noteq> ''__all__''"
  shows "card (fst ` set (deliveries dr enc ob)) = 3"
proof -
  have "fst ` set (deliveries dr enc ob) = set (destinations dr ob)"
    using assms(1) by (auto simp: deliveries_Inr image_iff)
  moreover have "distinct (destinations dr ob)" using assms(2,3) by (simp add: destinations_distinct)
  moreover have "length (destinations dr ob) = 3" using assms(2) by (simp add: destinations_def)
  ultimately show ?thesis by (simp add: distinct_card)
qed

lemma demo_all_written:
  "written (snd (snd (Dump no_faults demo_enc (demo_page [demo_all]) demo_dumper demo_fs)))
   = [(''out/objects-__all__.json'', ''x\<newline>''),
      (''out/split/ns1/__all__.json'', ''x\<newline>''),
      (''out/split/ns1/__all__.json'', ''x\<newline>'')]"
  by code_simp


lemma deliveries_shape:
  assumes "enc ob = Inr p"
  shows "deliveries dr enc ob
         = (if GetNamespace ob = [] then [(dr @ ''/objects-'' @ GetKind ob @ ''.json'', p)]
            else [(dr @ ''/objects-'' @ GetKind ob @ ''.json'', p),
                  (dr @ ''/split/'' @ GetNamespace ob @ ''/__all__.json'', p),
                  (dr @ ''/split/'' @ GetNamespace ob @ ''/'' @ GetKind ob @ ''.json'', p)])"
  using assms by (simp add: deliveries_def destinations_def)

lemma Dump_loop_record_sound:
  assumes "cache_inv da fsa" and "enc ob = Inr p"
    and "\<forall>q \<in> set (destinations (dir da) ob). sound_path flt q"
  shows "fst (Dump_loop flt enc [ob] errs da fsa) = errs
         \<and> written (snd (snd (Dump_loop flt enc [ob] errs da fsa)))
             = written fsa @ deliveries (dir da) enc ob"
proof -
  obtain e1 d1 f1 where l: "Dump_loop flt enc [ob] errs da fsa = (e1, d1, f1)"
    by (cases "Dump_loop flt enc [ob] errs da fsa") auto
  have "\<forall>x \<in> set [ob]. \<forall>q \<in> set (destinations (dir da) x). sound_path flt q"
    using assms(3) by simp
  from Dump_loop_all_sound [OF assms(1) this l] assms(2)
  show ?thesis using l by (simp add: encode_errors_def)
qed

lemma demo_node_written:
  "written (snd (snd (Dump demo_faults demo_enc (demo_page [demo_pod, demo_node]) demo_dumper demo_fs)))
   = [(''out/objects-Pod.json'', ''pod-a\<newline>''),
      (''out/split/ns1/__all__.json'', ''pod-a\<newline>''),
      (''out/objects-Node.json'', ''node-a\<newline>'')]"
  by code_simp


section \<open>The destinations of a record\<close>

text \<open>
  Claim C1, as the code has it. Take a record of a page that can be encoded and whose
  destination paths are such that no operation on them fails; the other records of the
  page and their paths may fail in any way. Then the step of \<open>Dump\<close> for the record
  records no error and completes exactly the writes of its serialized form to its
  destinations, one after the other: for a record with a namespace the three writes to
  \<open>objects-<kind>\<close>, \<open>split/<namespace>/__all__\<close> and \<open>split/<namespace>/<kind>\<close>, which
  are three distinct paths when the kind is not \<open>__all__\<close>; for a record without a
  namespace the one write to \<open>objects-<kind>\<close>. In the log of the whole page these
  writes stand between writes of the records before it and writes of the records after
  it; and when no destination of the page fails, the log is the writes of all records.
\<close>

theorem fan_out_destinations:
  assumes "cache_inv d fs" and "enc ob = Inr p"
    and "\<forall>q \<in> set (destinations (dir d) ob). sound_path flt q"
    and "Dump flt enc \<lparr>Items = pre @ ob # post, Continue = c\<rparr> d fs = (r, d', fs')"
  shows "(\<exists>before after.
            written fs' = written fs @ before @ deliveries (dir d) enc ob @ after
          \<and> subseq before (concat (map (deliveries (dir d) enc) pre))
          \<and> subseq after (concat (map (deliveries (dir d) enc) post)))
       \<and> (\<forall>errs da fsa. cache_inv da fsa \<and> dir da = dir d \<longrightarrow>
             fst (Dump_loop flt enc [ob] errs da fsa) = errs
             \<and> written (snd (snd (Dump_loop flt enc [ob] errs da fsa)))
                 = written fsa @ deliveries (dir d) enc ob)
       \<and> deliveries (dir d) enc ob
           = (if GetNamespace ob = [] then [(dir d @ ''/objects-'' @ GetKind ob @ ''.json'', p)]
              else [(dir d @ ''/objects-'' @ GetKind ob @ ''.json'', p),
                    (dir d @ ''/split/'' @ GetNamespace ob @ ''/__all__.json'', p),
                    (dir d @ ''/split/'' @ GetNamespace ob @ ''/'' @ GetKind ob @ ''.json'', p)])
       \<and> (GetNamespace ob \<noteq> [] \<and> GetKind ob \<noteq> ''__all__'' \<longrightarrow>
             card (fst ` set (deliveries (dir d) enc ob)) = 3)
       \<and> (GetNamespace ob = [] \<longrightarrow> card (fst ` set (deliveries (dir d) enc ob)) = 1)
       \<and> ((\<forall>x \<in> set (pre @ ob # post). \<forall>q \<in> set (destinations (dir d) x). sound_path flt q) \<longrightarrow>
             written fs' = written fs @ concat (map (deliveries (dir d) enc) (pre @ ob # post)))"
proof -
  from assms(4) obtain errs where
    loop: "Dump_loop flt enc (pre @ ob # post) [] d fs = (errs, d', fs')"
    by (auto simp: Dump_eq)
  obtain e1 d1 f1 where l1: "Dump_loop flt enc pre [] d fs = (e1, d1, f1)"
    by (cases "Dump_loop flt enc pre [] d fs") auto
  obtain e2 d2 f2 where l2: "Dump_loop flt enc [ob] e1 d1 f1 = (e2, d2, f2)"
    by (cases "Dump_loop flt enc [ob] e1 d1 f1") auto
  have l3: "Dump_loop flt enc post e2 d2 f2 = (errs, d', fs')"
    using loop l1 l2 Dump_loop_append [of flt enc pre "ob # post" "[]" d fs]
      Dump_loop_append [of flt enc "[ob]" post e1 d1 f1]
    by simp
  from Dump_loop_inv [OF assms(1) l1] obtain before where
    i1: "cache_inv d1 f1" "dir d1 = dir d" "written f1 = written fs @ before"
        "subseq before (concat (map (deliveries (dir d) enc) pre))"
    by blast
  have s1: "\<forall>q \<in> set (destinations (dir d1) ob). sound_path flt q" using assms(3) i1(2) by simp
  have w2: "written f2 = written f1 @ deliveries (dir d) enc ob"
    using Dump_loop_record_sound [where enc = enc and ob = ob and errs = e1, OF i1(1) assms(2) s1]
      l2 i1(2)
    by simp
  from Dump_loop_inv [OF i1(1) l2] have i2: "cache_inv d2 f2" "dir d2 = dir d1" by simp_all
  from Dump_loop_inv [OF i2(1) l3] obtain after where
    i3: "written fs' = written f2 @ after"
        "subseq after (concat (map (deliveries (dir d2) enc) post))"
    by blast
  have a: "\<exists>before after.
            written fs' = written fs @ before @ deliveries (dir d) enc ob @ after
          \<and> subseq before (concat (map (deliveries (dir d) enc) pre))
          \<and> subseq after (concat (map (deliveries (dir d) enc) post))"
    using i1(2,3,4) w2 i2(2) i3 by (intro exI [of _ before] exI [of _ after]) simp
  have b: "\<forall>errs da fsa. cache_inv da fsa \<and> dir da = dir d \<longrightarrow>
             fst (Dump_loop flt enc [ob] errs da fsa) = errs
             \<and> written (snd (snd (Dump_loop flt enc [ob] errs da fsa)))
                 = written fsa @ deliveries (dir d) enc ob"
  proof (intro allI impI)
    fix errs da fsa assume h: "cache_inv da fsa \<and> dir da = dir d"
    then have "\<forall>q \<in> set (destinations (dir da) ob). sound_path flt q" using assms(3) by simp
    from Dump_loop_record_sound [where enc = enc and ob = ob and errs = errs and fsa = fsa,
        OF _ assms(2) this] h
    show "fst (Dump_loop flt enc [ob] errs da fsa) = errs
             \<and> written (snd (snd (Dump_loop flt enc [ob] errs da fsa)))
                 = written fsa @ deliveries (dir d) enc ob"
      by simp
  qed
  note c = deliveries_shape [where enc = enc and ob = ob and dr = "dir d", OF assms(2)]
  have e: "GetNamespace ob \<noteq> [] \<and> GetKind ob \<noteq> ''__all__'' \<longrightarrow>
             card (fst ` set (deliveries (dir d) enc ob)) = 3"
    using deliveries_paths_card [where enc = enc and ob = ob and dr = "dir d", OF assms(2)] by blast
  have f: "GetNamespace ob = [] \<longrightarrow> card (fst ` set (deliveries (dir d) enc ob)) = 1"
    using c by simp
  have g: "(\<forall>x \<in> set (pre @ ob # post). \<forall>q \<in> set (destinations (dir d) x). sound_path flt q) \<longrightarrow>
             written fs' = written fs @ concat (map (deliveries (dir d) enc) (pre @ ob # post))"
    using Dump_loop_all_sound [OF assms(1) _ loop] by blast
  show ?thesis by (intro conjI a b c e f g)
qed


theorem fan_out_destinations_witness:
  "cache_inv demo_dumper demo_fs
   \<and> demo_enc demo_node = Inr ''node-a\<newline>''
   \<and> sound_path demo_faults ''out/objects-Node.json''
   \<and> \<not> sound_path demo_faults ''out/split/ns1/Pod.json''
   \<and> deliveries (dir demo_dumper) demo_enc demo_node = [(''out/objects-Node.json'', ''node-a\<newline>'')]
   \<and> (\<exists>before after.
         written (snd (snd (Dump demo_faults demo_enc (demo_page [demo_pod, demo_node])
                              demo_dumper demo_fs)))
         = written demo_fs @ before @ [(''out/objects-Node.json'', ''node-a\<newline>'')] @ after
       \<and> subseq before (concat (map (deliveries (dir demo_dumper) demo_enc) [demo_pod]))
       \<and> after = [])
   \<and> written (snd (snd (Dump_loop demo_faults demo_enc [demo_node] [] demo_dumper demo_fs)))
       = [(''out/objects-Node.json'', ''node-a\<newline>'')]"
proof -
  let ?D = "Dump demo_faults demo_enc \<lparr>Items = [demo_pod] @ demo_node # [], Continue = []\<rparr> demo_dumper demo_fs"
  have h1: "cache_inv demo_dumper demo_fs" by (rule demo_cache_inv)
  have h2: "demo_enc demo_node = Inr ''node-a\<newline>''" by (simp add: demo_enc_def demo_node_def)
  have sp: "sound_path demo_faults ''out/objects-Node.json''"
    by (simp add: sound_path_def demo_faults_def)
  have nsp: "\<not> sound_path demo_faults ''out/split/ns1/Pod.json''"
    by (simp add: sound_path_def demo_faults_def)
  have h3: "\<forall>q \<in> set (destinations (dir demo_dumper) demo_node). sound_path demo_faults q"
    using sp by (simp add: destinations_def demo_node_def demo_dumper_def)
  have h4: "?D = (fst ?D, fst (snd ?D), snd (snd ?D))" by simp
  note t = fan_out_destinations [where enc = demo_enc and ob = demo_node, OF h1 h2 h3 h4]
  have dl: "deliveries (dir demo_dumper) demo_enc demo_node = [(''out/objects-Node.json'', ''node-a\<newline>'')]"
    using t [THEN conjunct2, THEN conjunct2, THEN conjunct1]
    by (simp add: demo_node_def demo_dumper_def)
  have pg: "demo_page [demo_pod, demo_node] = \<lparr>Items = [demo_pod] @ demo_node # [], Continue = []\<rparr>"
    by (simp add: demo_page_def)
  from t [THEN conjunct1] obtain before after where
    ba: "written (snd (snd ?D)) = written demo_fs @ before @ deliveries (dir demo_dumper) demo_enc demo_node @ after"
      "subseq before (concat (map (deliveries (dir demo_dumper) demo_enc) [demo_pod]))"
      "subseq after (concat (map (deliveries (dir demo_dumper) demo_enc) []))"
    by blast
  have "after = []" using ba(3) by simp
  then have a: "\<exists>before after.
         written (snd (snd (Dump demo_faults demo_enc (demo_page [demo_pod, demo_node])
                              demo_dumper demo_fs)))
         = written demo_fs @ before @ [(''out/objects-Node.json'', ''node-a\<newline>'')] @ after
       \<and> subseq before (concat (map (deliveries (dir demo_dumper) demo_enc) [demo_pod]))
       \<and> after = []"
    using ba(1,2) unfolding pg dl by blast
  have b: "written (snd (snd (Dump_loop demo_faults demo_enc [demo_node] [] demo_dumper demo_fs)))
       = [(''out/objects-Node.json'', ''node-a\<newline>'')]"
    using t [THEN conjunct2, THEN conjunct1, rule_format, of demo_dumper demo_fs "[]"] h1 dl
    by (simp add: demo_fs_def)
  show ?thesis by (intro conjI h1 h2 sp nsp dl a b)
qed

text \<open>
  Claim C1 as stated fails for a record of kind \<open>__all__\<close>: its second and third
  destination are the same path, so two paths receive the record, one of them twice.
\<close>

theorem fan_out_three_paths_counterexample:
  "GetNamespace demo_all \<noteq> []
   \<and> fst (Dump no_faults demo_enc (demo_page [demo_all]) demo_dumper demo_fs) = None
   \<and> written (snd (snd (Dump no_faults demo_enc (demo_page [demo_all]) demo_dumper demo_fs)))
       = [(''out/objects-__all__.json'', ''x\<newline>''),
          (''out/split/ns1/__all__.json'', ''x\<newline>''),
          (''out/split/ns1/__all__.json'', ''x\<newline>'')]
   \<and> card (fst ` set (written (snd (snd (Dump no_faults demo_enc (demo_page [demo_all])
                                          demo_dumper demo_fs))))) \<noteq> 3"
proof -
  have a: "GetNamespace demo_all \<noteq> []" by (simp add: demo_all_def)
  have b: "fst (Dump no_faults demo_enc (demo_page [demo_all]) demo_dumper demo_fs) = None"
    by code_simp
  have c: "card (fst ` set (written (snd (snd (Dump no_faults demo_enc (demo_page [demo_all])
                                          demo_dumper demo_fs))))) \<noteq> 3"
    unfolding demo_all_written by simp
  show ?thesis by (intro conjI a b c demo_all_written)
qed


lemma writeToFile_error_flat:
  "writeToFile flt d q b fs = (Some e, d', fs') \<Longrightarrow> flatten_error e = [e]"
  by (auto simp: writeToFile_def split: prod.splits sum.splits option.splits)

lemma write_all_flat:
  assumes "\<forall>e \<in> set errs. flatten_error e = [e]"
    and "write_all flt qs b errs d fs = (errs', d', fs')"
  shows "\<forall>e \<in> set errs'. flatten_error e = [e]"
  using assms
proof (induction qs arbitrary: errs d fs)
  case Nil
  then show ?case by simp
next
  case (Cons q qs)
  obtain r d1 fs1 where w: "writeToFile flt d q b fs = (r, d1, fs1)"
    by (cases "writeToFile flt d q b fs") auto
  have rest: "write_all flt qs b (record_error r errs) d1 fs1 = (errs', d', fs')"
    using Cons.prems(2) w by simp
  have "\<forall>e \<in> set (record_error r errs). flatten_error e = [e]"
    using Cons.prems(1) w writeToFile_error_flat [of flt d q b fs _ d1 fs1]
    by (cases r) (auto simp: record_error_def)
  from Cons.IH [OF this rest] show ?case .
qed

lemma Dump_loop_flat:
  assumes "\<forall>e \<in> set errs. flatten_error e = [e]"
    and "Dump_loop flt enc obs errs d fs = (errs', d', fs')"
  shows "\<forall>e \<in> set errs'. flatten_error e = [e]"
  using assms
proof (induction obs arbitrary: errs d fs)
  case Nil
  then show ?case by simp
next
  case (Cons ob obs)
  show ?case
  proof (cases "enc ob")
    case (Inl e)
    have rest: "Dump_loop flt enc obs (errs @ [Wrapped ''failed to encode object'' e]) (d\<lparr>sharedBuf := []\<rparr>) fs
          = (errs', d', fs')"
      using Cons.prems(2) Inl by simp
    have "\<forall>x \<in> set (errs @ [Wrapped ''failed to encode object'' e]). flatten_error x = [x]"
      using Cons.prems(1) by simp
    from Cons.IH [OF this rest] show ?thesis .
  next
    case (Inr p)
    obtain errs1 d1 fs1 where
      w: "write_all flt (destinations (dir d) ob) p errs (d\<lparr>sharedBuf := p\<rparr>) fs = (errs1, d1, fs1)"
      by (cases "write_all flt (destinations (dir d) ob) p errs (d\<lparr>sharedBuf := p\<rparr>) fs") auto
    have rest: "Dump_loop flt enc obs errs1 d1 fs1 = (errs', d', fs')"
      using Cons.prems(2) w by (simp only: Dump_loop_write_all [where enc = enc and ob = ob, OF Inr]) simp
    from Cons.IH [OF write_all_flat [OF Cons.prems(1) w] rest] show ?thesis .
  qed
qed

lemma concat_flatten_flat:
  "\<forall>e \<in> set errs. flatten_error e = [e] \<Longrightarrow> concat (map flatten_error errs) = errs"
  by (induction errs) simp_all

lemma demo_isolated_written:
  "written (snd (snd (Dump demo_faults demo_enc (demo_page [demo_pod, demo_node]) demo_dumper demo_fs)))
   = [(''out/objects-Pod.json'', ''pod-a\<newline>''),
      (''out/split/ns1/__all__.json'', ''pod-a\<newline>''),
      (''out/objects-Node.json'', ''node-a\<newline>'')]"
  by code_simp

lemma demo_isolated_error:
  "fst (Dump demo_faults demo_enc (demo_page [demo_pod, demo_node]) demo_dumper demo_fs)
   = Some (Wrapped ''failed to copy to file'' (Errno ''write''))"
  by code_simp


section \<open>A failed write\<close>

text \<open>
  Claim C2. In a \<open>Dump\<close> of a page, whatever fails: the completed writes are some of
  the writes the page stands for, in order, and every write that is missing, like every
  record that cannot be encoded, is one error of the combined error returned; on a path
  on which no operation fails every write of the page arrives, whatever fails on the
  other paths (the other destinations of the same record and the later records of the
  page among them); and the loop writes a record to each of its destinations in turn,
  whatever became of the earlier ones, before it goes on with the next record.
\<close>

theorem write_failure_isolated:
  assumes "cache_inv d fs" and "Dump flt enc l d fs = (r, d', fs')"
  shows "(\<exists>new. written fs' = written fs @ new
            \<and> subseq new (concat (map (deliveries (dir d) enc) (Items l)))
            \<and> length (Errors r) + length new
                = length (concat (map (deliveries (dir d) enc) (Items l)))
                  + length (encode_errors enc (Items l)))
       \<and> (\<forall>x. sound_path flt x \<longrightarrow>
             filter (\<lambda>e. fst e = x) (written fs')
             = filter (\<lambda>e. fst e = x) (written fs)
               @ filter (\<lambda>e. fst e = x) (concat (map (deliveries (dir d) enc) (Items l))))
       \<and> (\<forall>ob obs p errs da fsa. enc ob = Inr p \<longrightarrow>
             Dump_loop flt enc (ob # obs) errs da fsa
             = (case write_all flt (destinations (dir da) ob) p errs (da\<lparr>sharedBuf := p\<rparr>) fsa of
                  (errs1, d1, fs1) \<Rightarrow> Dump_loop flt enc obs errs1 d1 fs1))"
proof -
  from assms(2) obtain errs where
    loop: "Dump_loop flt enc (Items l) [] d fs = (errs, d', fs')" and r: "r = Combine errs"
    by (auto simp: Dump_eq)
  have "\<forall>e \<in> set errs. flatten_error e = [e]"
    using Dump_loop_flat [OF _ loop] by simp
  then have len: "length (Errors r) = length errs"
    using r by (simp add: Errors_Combine concat_flatten_flat)
  from Dump_loop_inv [OF assms(1) loop] obtain new where
    n: "written fs' = written fs @ new"
       "subseq new (concat (map (deliveries (dir d) enc) (Items l)))"
       "length errs + length new
          = length ([] :: error list) + length (concat (map (deliveries (dir d) enc) (Items l)))
            + length (encode_errors enc (Items l))"
    by blast
  have a: "\<exists>new. written fs' = written fs @ new
            \<and> subseq new (concat (map (deliveries (dir d) enc) (Items l)))
            \<and> length (Errors r) + length new
                = length (concat (map (deliveries (dir d) enc) (Items l)))
                  + length (encode_errors enc (Items l))"
    using n len by (intro exI [of _ new]) simp
  have b: "\<forall>x. sound_path flt x \<longrightarrow>
             filter (\<lambda>e. fst e = x) (written fs')
             = filter (\<lambda>e. fst e = x) (written fs)
               @ filter (\<lambda>e. fst e = x) (concat (map (deliveries (dir d) enc) (Items l)))"
    using Dump_loop_sound [OF assms(1) _ loop] by blast
  have c: "\<forall>ob obs p errs da fsa. enc ob = Inr p \<longrightarrow>
             Dump_loop flt enc (ob # obs) errs da fsa
             = (case write_all flt (destinations (dir da) ob) p errs (da\<lparr>sharedBuf := p\<rparr>) fsa of
                  (errs1, d1, fs1) \<Rightarrow> Dump_loop flt enc obs errs1 d1 fs1)"
    using Dump_loop_write_all [where enc = enc and flt = flt] by blast
  show ?thesis by (intro conjI a b c)
qed


theorem write_failure_isolated_witness:
  "cache_inv demo_dumper demo_fs
   \<and> sound_path demo_faults ''out/objects-Pod.json''
   \<and> fst (Dump demo_faults demo_enc (demo_page [demo_pod, demo_node]) demo_dumper demo_fs)
       = Some (Wrapped ''failed to copy to file'' (Errno ''write''))
   \<and> length (Errors (fst (Dump demo_faults demo_enc (demo_page [demo_pod, demo_node])
                              demo_dumper demo_fs))) = 1
   \<and> filter (\<lambda>e. fst e = ''out/objects-Pod.json'')
        (written (snd (snd (Dump demo_faults demo_enc (demo_page [demo_pod, demo_node])
                              demo_dumper demo_fs))))
       = [(''out/objects-Pod.json'', ''pod-a\<newline>'')]"
proof -
  let ?D = "Dump demo_faults demo_enc (demo_page [demo_pod, demo_node]) demo_dumper demo_fs"
  have h1: "cache_inv demo_dumper demo_fs" by (rule demo_cache_inv)
  have h2: "?D = (fst ?D, fst (snd ?D), snd (snd ?D))" by simp
  have h3: "sound_path demo_faults ''out/objects-Pod.json''"
    by (simp add: sound_path_def demo_faults_def)
  note t = write_failure_isolated [OF h1 h2]
  have e1: "demo_enc demo_pod = Inr ''pod-a\<newline>''" by (simp add: demo_enc_def demo_pod_def)
  have e2: "demo_enc demo_node = Inr ''node-a\<newline>''" by (simp add: demo_enc_def demo_node_def)
  from t h3 have "filter (\<lambda>e. fst e = ''out/objects-Pod.json'') (written (snd (snd ?D)))
             = filter (\<lambda>e. fst e = ''out/objects-Pod.json'') (written demo_fs)
               @ filter (\<lambda>e. fst e = ''out/objects-Pod.json'')
                   (concat (map (deliveries (dir demo_dumper) demo_enc) (Items (demo_page [demo_pod, demo_node]))))"
    by blast
  then have a: "filter (\<lambda>e. fst e = ''out/objects-Pod.json'') (written (snd (snd ?D)))
       = [(''out/objects-Pod.json'', ''pod-a\<newline>'')]"
    using e1 e2
    by (simp add: demo_page_def deliveries_def destinations_def demo_dumper_def demo_fs_def
                  demo_pod_def demo_node_def)
  have b: "length (Errors (fst ?D)) = 1"
    unfolding demo_isolated_error by (simp add: Errors_def)
  show ?thesis by (intro conjI h1 h3 demo_isolated_error a b)
qed

section \<open>The life of the handles\<close>

lemma filter_le_one:
  assumes "distinct xs" and "\<forall>a \<in> set xs. \<forall>b \<in> set xs. P a \<and> P b \<longrightarrow> a = b"
  shows "length (filter P xs) \<le> 1"
  using assms
proof (induction xs)
  case Nil
  then show ?case by simp
next
  case (Cons x xs)
  show ?case
  proof (cases "P x")
    case True
    have "filter P xs = []" using Cons.prems True by (auto simp: filter_empty_conv)
    then show ?thesis using True by simp
  next
    case False
    then show ?thesis using Cons by simp
  qed
qed

lemma cache_inv_handles_on:
  assumes "cache_inv d fs"
  shows "handles_on fs p = (case openFiles d p of None \<Rightarrow> [] | Some f \<Rightarrow> [f])"
proof -
  have dist: "distinct (fds fs)" using assms by (auto simp: cache_inv_def distinct_map)
  have uniq: "\<forall>a \<in> set (fds fs). \<forall>b \<in> set (fds fs). snd a = p \<and> snd b = p \<longrightarrow> a = b"
  proof (intro ballI impI)
    fix a b assume ab: "a \<in> set (fds fs)" "b \<in> set (fds fs)" "snd a = p \<and> snd b = p"
    have "openFiles d p = Some (fst a)" "openFiles d p = Some (fst b)"
      using assms ab by (auto simp: cache_inv_def)
    then have "fst a = fst b" by simp
    then show "a = b" using ab(3) by (simp add: prod_eq_iff)
  qed
  have le: "length (filter (\<lambda>e. snd e = p) (fds fs)) \<le> 1"
    using dist uniq by (rule filter_le_one)
  show ?thesis
  proof (cases "openFiles d p")
    case None
    have "filter (\<lambda>e. snd e = p) (fds fs) = []"
      using assms None by (auto simp: cache_inv_def filter_empty_conv)
    then show ?thesis using None by (simp add: handles_on_def)
  next
    case (Some f)
    then have "(f, p) \<in> set (filter (\<lambda>e. snd e = p) (fds fs))"
      using assms by (auto simp: cache_inv_def)
    then obtain ys where "filter (\<lambda>e. snd e = p) (fds fs) = [(f, p)]"
      using le by (cases "filter (\<lambda>e. snd e = p) (fds fs)") auto
    then show ?thesis using Some by (simp add: handles_on_def)
  qed
qed

lemma newDirDumper_inv:
  assumes "fds fs0 = []" and "newDirDumper flt dr fs0 = (Inr d0, fs1)"
  shows "cache_inv d0 fs1 \<and> openFiles d0 = Map.empty \<and> dir d0 = dr"
  using assms
  by (auto simp: newDirDumper_def os_MkdirAll_def cache_inv_def tick_def split: if_splits)

lemma Close_loop_release:
  assumes "distinct ps"
    and "distinct (map fst (fds fs))"
    and "\<forall>p \<in> set ps. \<exists>f. openFiles d p = Some f \<and> (f, p) \<in> set (fds fs)"
    and "\<forall>e \<in> set (fds fs). snd e \<in> set ps \<and> openFiles d (snd e) = Some (fst e)"
    and "Close_loop flt d ps errs fs = (errs', fs')"
  shows "fds fs' = [] \<and> errs' = errs @ close_failures flt (clock fs) ps"
  using assms
proof (induction ps arbitrary: errs fs)
  case Nil
  then show ?case by (cases "fds fs") auto
next
  case (Cons p ps)
  from Cons.prems(3) obtain f where f: "openFiles d p = Some f" "(f, p) \<in> set (fds fs)" by auto
  have m: "map_of (fds fs) f = Some p" using Cons.prems(2) f(2) by simp
  let ?fs1 = "tick (fs\<lparr>fds := filter (\<lambda>e. fst e \<noteq> f) (fds fs)\<rparr>)"
  let ?r = "if flt (OpClose p) (clock fs) then Some (Errno ''close'') else None"
  have cl: "file_Close flt f fs = (?r, ?fs1)" using m by (simp add: file_Close_def)
  have rest: "Close_loop flt d ps (record_error ?r errs) ?fs1 = (errs', fs')"
    using Cons.prems(5) f(1) cl by simp
  have only: "\<forall>e \<in> set (fds fs). (fst e = f) = (snd e = p)"
  proof
    fix e assume e: "e \<in> set (fds fs)"
    show "(fst e = f) = (snd e = p)"
    proof
      assume "fst e = f"
      moreover have "inj_on fst (set (fds fs))" using Cons.prems(2) by (simp add: distinct_map)
      ultimately have "e = (f, p)" using e f(2) inj_onD [of fst "set (fds fs)" e "(f, p)"] by simp
      then show "snd e = p" by simp
    next
      assume "snd e = p"
      then show "fst e = f" using Cons.prems(4) e f(1) by auto
    qed
  qed
  have 2: "distinct (map fst (fds ?fs1))"
    using Cons.prems(2) by (simp add: tick_def distinct_map_filter)
  have 3: "\<forall>q \<in> set ps. \<exists>g. openFiles d q = Some g \<and> (g, q) \<in> set (fds ?fs1)"
  proof
    fix q assume q: "q \<in> set ps"
    then obtain g where g: "openFiles d q = Some g" "(g, q) \<in> set (fds fs)"
      using Cons.prems(3) by auto
    have "q \<noteq> p" using q Cons.prems(1) by auto
    then have "g \<noteq> f" using only g(2) by auto
    then show "\<exists>g. openFiles d q = Some g \<and> (g, q) \<in> set (fds ?fs1)"
      using g by (auto simp: tick_def)
  qed
  have 4: "\<forall>e \<in> set (fds ?fs1). snd e \<in> set ps \<and> openFiles d (snd e) = Some (fst e)"
    using Cons.prems(4) only by (fastforce simp: tick_def)
  have 1: "distinct ps" using Cons.prems(1) by simp
  from Cons.IH [OF 1 2 3 4 rest] show ?case
    by (auto simp: tick_def record_error_def)
qed

lemma Close_release:
  assumes "cache_inv d fs" and "distinct ps" and "set ps = dom (openFiles d)"
    and "Close flt ps d fs = (r, fs')"
  shows "fds fs' = [] \<and> r = Combine (close_failures flt (clock fs) ps)"
proof -
  from assms(4) obtain errs where
    c: "Close_loop flt d ps [] fs = (errs, fs')" and r: "r = Combine errs"
    by (auto simp: Close_def split: prod.splits)
  have 2: "distinct (map fst (fds fs))" using assms(1) by (simp add: cache_inv_def)
  have 3: "\<forall>p \<in> set ps. \<exists>f. openFiles d p = Some f \<and> (f, p) \<in> set (fds fs)"
    using assms(1,3) by (auto simp: cache_inv_def)
  have 4: "\<forall>e \<in> set (fds fs). snd e \<in> set ps \<and> openFiles d (snd e) = Some (fst e)"
    using assms(1,3) by (auto simp: cache_inv_def)
  from Close_loop_release [OF assms(2) 2 3 4 c] show ?thesis using r by simp
qed

lemma dirDumper_file_created:
  assumes "cache_inv d fs" and "openFiles d p = None"
    and "dirDumper_file flt d p fs = (Inr f, d1, fs1)"
  shows "openFiles d1 = (openFiles d)(p \<mapsto> f) \<and> filepath_Dir p \<in> dirs fs1
         \<and> f \<notin> fst ` set (fds fs) \<and> cache_inv d1 fs1"
proof -
  have ci: "cache_inv d1 fs1" using dirDumper_file_inv [OF assms(1,3)] by simp
  have fresh: "next_fd fs \<notin> fst ` set (fds fs)" using assms(1) by (auto simp: cache_inv_def)
  have "openFiles d1 = (openFiles d)(p \<mapsto> f) \<and> filepath_Dir p \<in> dirs fs1 \<and> f = next_fd fs"
    using assms(3) parents_self [OF filepath_Dir_nonempty, of p]
    by (auto simp: dirDumper_file_miss [OF assms(2)] tick_def split: if_splits)
  then show ?thesis using ci fresh by simp
qed

lemma writeToFile_hit:
  assumes "cache_inv d fs" and "openFiles d p = Some f"
  shows "writeToFile flt d p b fs =
     (if flt (OpWrite p) (clock fs)
      then (Some (Wrapped ''failed to copy to file'' (Errno ''write'')), d, tick fs)
      else (None, d, tick (fs\<lparr>written := written fs @ [(p, b)]\<rparr>)))"
proof -
  have "map_of (fds fs) f = Some p" using assms by (rule cache_inv_map_of)
  then show ?thesis using assms(2)
    by (simp add: writeToFile_def dirDumper_file_hit file_Write_def)
qed

lemma cache_inv_fresh: "cache_inv d fs \<Longrightarrow> next_fd fs \<notin> fst ` set (fds fs)"
  by (auto simp: cache_inv_def)

lemma dirDumper_file_new:
  assumes "cache_inv d fs" and "openFiles d p = None"
    and "\<not> flt (OpMkdirAll (filepath_Dir p)) (clock fs)" and "\<not> flt (OpCreate p) (Suc (clock fs))"
  shows "\<exists>fs1. dirDumper_file flt d p fs
                = (Inr (next_fd fs), d\<lparr>openFiles := (openFiles d)(p \<mapsto> next_fd fs)\<rparr>, fs1)
           \<and> fs1 = tick (tick (fs\<lparr>dirs := dirs fs \<union> parents (filepath_Dir p)\<rparr>)
                          \<lparr>fds := fds fs @ [(next_fd fs, p)], next_fd := Suc (next_fd fs)\<rparr>)
           \<and> filepath_Dir p \<in> dirs fs1
           \<and> handles_on fs p = []
           \<and> handles_on fs1 p = [next_fd fs]
           \<and> next_fd fs \<notin> fst ` set (fds fs)
           \<and> cache_inv (d\<lparr>openFiles := (openFiles d)(p \<mapsto> next_fd fs)\<rparr>) fs1"
proof -
  let ?d1 = "d\<lparr>openFiles := (openFiles d)(p \<mapsto> next_fd fs)\<rparr>"
  let ?fs1 = "tick (tick (fs\<lparr>dirs := dirs fs \<union> parents (filepath_Dir p)\<rparr>)
                          \<lparr>fds := fds fs @ [(next_fd fs, p)], next_fd := Suc (next_fd fs)\<rparr>)"
  have eq: "dirDumper_file flt d p fs = (Inr (next_fd fs), ?d1, ?fs1)"
    using assms(3,4) by (simp add: dirDumper_file_miss [OF assms(2)])
  have ci: "cache_inv ?d1 ?fs1"
    using assms(1,2) by (rule cache_inv_create) (simp_all add: tick_def)
  have dr: "filepath_Dir p \<in> dirs ?fs1"
    using parents_self [OF filepath_Dir_nonempty, of p] by (simp add: tick_def)
  have h0: "handles_on fs p = []"
    using cache_inv_handles_on [OF assms(1), of p] assms(2) by simp
  have h1: "handles_on ?fs1 p = [next_fd fs]"
    using cache_inv_handles_on [OF ci, of p] by simp
  show ?thesis
    by (rule exI [of _ ?fs1]) (intro conjI eq refl dr h0 h1 cache_inv_fresh [OF assms(1)] ci)
qed

lemma dirDumper_file_failed:
  assumes "cache_inv d fs" and "openFiles d p = None"
    and "flt (OpMkdirAll (filepath_Dir p)) (clock fs) \<or> flt (OpCreate p) (Suc (clock fs))"
  shows "\<exists>e fs1. dirDumper_file flt d p fs = (Inl e, d, fs1)
           \<and> fds fs1 = fds fs \<and> written fs1 = written fs \<and> cache_inv d fs1"
proof (cases "flt (OpMkdirAll (filepath_Dir p)) (clock fs)")
  case True
  have "cache_inv d (tick fs)"
    using assms(1) cache_inv_cong [of "tick fs" fs d d] by (simp add: tick_def)
  then show ?thesis using True by (simp add: dirDumper_file_miss [OF assms(2)] tick_def)
next
  case False
  let ?fs2 = "tick (tick (fs\<lparr>dirs := dirs fs \<union> parents (filepath_Dir p)\<rparr>))"
  have "cache_inv d ?fs2"
    using assms(1) cache_inv_cong [of ?fs2 fs d d] by (simp add: tick_def)
  then show ?thesis using False assms(3)
    by (simp add: dirDumper_file_miss [OF assms(2)] tick_def)
qed

lemma writeToFile_miss:
  assumes "cache_inv d fs" and "openFiles d p = None"
    and "\<not> flt (OpMkdirAll (filepath_Dir p)) (clock fs)" and "\<not> flt (OpCreate p) (Suc (clock fs))"
  shows "writeToFile flt d p b fs =
     (let d1 = d\<lparr>openFiles := (openFiles d)(p \<mapsto> next_fd fs)\<rparr>;
          fs1 = tick (tick (fs\<lparr>dirs := dirs fs \<union> parents (filepath_Dir p)\<rparr>)
                        \<lparr>fds := fds fs @ [(next_fd fs, p)], next_fd := Suc (next_fd fs)\<rparr>)
      in if flt (OpWrite p) (Suc (Suc (clock fs)))
         then (Some (Wrapped ''failed to copy to file'' (Errno ''write'')), d1, tick fs1)
         else (None, d1, tick (fs1\<lparr>written := written fs @ [(p, b)]\<rparr>)))"
proof -
  have "map_of (fds fs) (next_fd fs) = None"
    using assms(1) by (force simp: cache_inv_def map_of_eq_None_iff)
  then have "map_of (fds fs @ [(next_fd fs, p)]) (next_fd fs) = Some p"
    by (simp add: map_add_def)
  then show ?thesis using assms(3,4)
    by (simp add: writeToFile_def dirDumper_file_miss [OF assms(2)] file_Write_def tick_def Let_def)
qed

lemma writeToFile_again:
  assumes "cache_inv d fs" and "writeToFile flt d p b fs = (r, d1, fs1)"
    and "openFiles d1 p = Some f"
  shows "handles_on fs1 p = [f]
         \<and> (\<exists>r' fs2. writeToFile flt d1 p b' fs1 = (r', d1, fs2)
               \<and> fds fs2 = fds fs1 \<and> handles_on fs2 p = [f])"
proof -
  have ci: "cache_inv d1 fs1" using writeToFile_inv [OF assms(1,2)] by simp
  have h: "handles_on fs1 p = [f]" using cache_inv_handles_on [OF ci, of p] assms(3) by simp
  have "\<exists>r' fs2. writeToFile flt d1 p b' fs1 = (r', d1, fs2)
               \<and> fds fs2 = fds fs1 \<and> handles_on fs2 p = [f]"
    using h by (simp add: writeToFile_hit [OF ci assms(3)] tick_def handles_on_def)
  then show ?thesis using h by simp
qed

lemma demo_open_cache_inv: "cache_inv demo_open_dumper demo_open_fs"
  by (simp add: cache_inv_def demo_open_dumper_def demo_open_fs_def)


lemma demo_Dir_Node: "filepath_Dir ''out/objects-Node.json'' = ''out''"
  by code_simp

lemma demo_parents_out: "parents ''out'' = {''out''}"
  by code_simp

text \<open>
  Claim C3. While the sink owns the open descriptors (which holds from \<open>newDirDumper\<close>
  on a file system with nothing open, and is kept by every write and every \<open>Dump\<close>):
  each path has at most one open handle, the cached one. Asking for the file of a cached
  path gives the stored handle back and changes nothing, and a write to such a path is a
  write through that handle: no directory is made and no file is opened. Asking for the
  file of a path that is not cached makes the directory of the path and then opens the
  file: when neither operation fails, the result is a fresh handle, open on that path and
  stored in the cache under it, and a write to such a path goes through the new handle;
  when one of them fails, the result is an error and the cache and the open descriptors
  are as before. After a write to a path that left a handle for it, a further write to
  the same path leaves the cache and the open descriptors as they are. The cache only
  grows during \<open>Dump\<close>; and \<open>Close\<close>, visiting the cached paths in any order, releases
  every handle and returns the combination of the errors of the closes that failed.
\<close>

theorem handle_cache_lifecycle:
  assumes "cache_inv d fs"
  shows "(\<forall>p. length (handles_on fs p) \<le> 1
              \<and> handles_on fs p = (case openFiles d p of None \<Rightarrow> [] | Some f \<Rightarrow> [f]))
       \<and> (\<forall>p f. openFiles d p = Some f \<longrightarrow> dirDumper_file flt d p fs = (Inr f, d, fs))
       \<and> (\<forall>p f d1 fs1. openFiles d p = None \<and> dirDumper_file flt d p fs = (Inr f, d1, fs1) \<longrightarrow>
             openFiles d1 = (openFiles d)(p \<mapsto> f) \<and> filepath_Dir p \<in> dirs fs1
             \<and> handles_on fs1 p = [f] \<and> f \<notin> fst ` set (fds fs) \<and> cache_inv d1 fs1)
       \<and> (\<forall>p b r d1 fs1. writeToFile flt d p b fs = (r, d1, fs1) \<longrightarrow>
             cache_inv d1 fs1 \<and> openFiles d \<subseteq>\<^sub>m openFiles d1)
       \<and> (\<forall>l r d1 fs1. Dump flt enc l d fs = (r, d1, fs1) \<longrightarrow>
             cache_inv d1 fs1 \<and> openFiles d \<subseteq>\<^sub>m openFiles d1
             \<and> (\<forall>p. length (handles_on fs1 p) \<le> 1))
       \<and> (\<forall>ps r fs1. distinct ps \<and> set ps = dom (openFiles d) \<and> Close flt ps d fs = (r, fs1) \<longrightarrow>
             fds fs1 = [] \<and> (\<forall>p. handles_on fs1 p = [])
             \<and> r = Combine (close_failures flt (clock fs) ps))
       \<and> (\<forall>dr fs0 d0 fsa. fds fs0 = [] \<and> newDirDumper flt dr fs0 = (Inr d0, fsa) \<longrightarrow>
             cache_inv d0 fsa \<and> openFiles d0 = Map.empty)
       \<and> (\<forall>p. openFiles d p = None \<and> \<not> flt (OpMkdirAll (filepath_Dir p)) (clock fs)
               \<and> \<not> flt (OpCreate p) (Suc (clock fs)) \<longrightarrow>
             (\<exists>fs1. dirDumper_file flt d p fs
                      = (Inr (next_fd fs), d\<lparr>openFiles := (openFiles d)(p \<mapsto> next_fd fs)\<rparr>, fs1)
                 \<and> fs1 = tick (tick (fs\<lparr>dirs := dirs fs \<union> parents (filepath_Dir p)\<rparr>)
                                \<lparr>fds := fds fs @ [(next_fd fs, p)], next_fd := Suc (next_fd fs)\<rparr>)
                 \<and> filepath_Dir p \<in> dirs fs1
                 \<and> handles_on fs p = []
                 \<and> handles_on fs1 p = [next_fd fs]
                 \<and> next_fd fs \<notin> fst ` set (fds fs)
                 \<and> cache_inv (d\<lparr>openFiles := (openFiles d)(p \<mapsto> next_fd fs)\<rparr>) fs1))
       \<and> (\<forall>p. openFiles d p = None
               \<and> (flt (OpMkdirAll (filepath_Dir p)) (clock fs) \<or> flt (OpCreate p) (Suc (clock fs))) \<longrightarrow>
             (\<exists>e fs1. dirDumper_file flt d p fs = (Inl e, d, fs1)
                 \<and> fds fs1 = fds fs \<and> written fs1 = written fs \<and> cache_inv d fs1))
       \<and> (\<forall>p f b. openFiles d p = Some f \<longrightarrow>
             file_Write flt f b fs
               = (if flt (OpWrite p) (clock fs) then (Some (Errno ''write''), tick fs)
                  else (None, tick (fs\<lparr>written := written fs @ [(p, b)]\<rparr>)))
             \<and> writeToFile flt d p b fs
               = (case file_Write flt f b fs of
                    (Some err, fs2) \<Rightarrow> (Some (Wrapped ''failed to copy to file'' err), d, fs2)
                  | (None, fs2) \<Rightarrow> (None, d, fs2))
             \<and> writeToFile flt d p b fs
               = (if flt (OpWrite p) (clock fs)
                  then (Some (Wrapped ''failed to copy to file'' (Errno ''write'')), d, tick fs)
                  else (None, d, tick (fs\<lparr>written := written fs @ [(p, b)]\<rparr>)))
             \<and> fds (snd (snd (writeToFile flt d p b fs))) = fds fs)
       \<and> (\<forall>p b. openFiles d p = None \<and> \<not> flt (OpMkdirAll (filepath_Dir p)) (clock fs)
               \<and> \<not> flt (OpCreate p) (Suc (clock fs)) \<longrightarrow>
             writeToFile flt d p b fs =
               (let d1 = d\<lparr>openFiles := (openFiles d)(p \<mapsto> next_fd fs)\<rparr>;
                    fs1 = tick (tick (fs\<lparr>dirs := dirs fs \<union> parents (filepath_Dir p)\<rparr>)
                                  \<lparr>fds := fds fs @ [(next_fd fs, p)], next_fd := Suc (next_fd fs)\<rparr>)
                in if flt (OpWrite p) (Suc (Suc (clock fs)))
                   then (Some (Wrapped ''failed to copy to file'' (Errno ''write'')), d1, tick fs1)
                   else (None, d1, tick (fs1\<lparr>written := written fs @ [(p, b)]\<rparr>))))
       \<and> (\<forall>p b b' r d1 fs1 f. writeToFile flt d p b fs = (r, d1, fs1) \<and> openFiles d1 p = Some f \<longrightarrow>
             handles_on fs1 p = [f]
             \<and> (\<exists>r' fs2. writeToFile flt d1 p b' fs1 = (r', d1, fs2)
                   \<and> fds fs2 = fds fs1 \<and> handles_on fs2 p = [f]))"
proof -
  have one: "length (handles_on fs' p) \<le> 1" if "cache_inv d' fs'" for d' fs' p
    using cache_inv_handles_on [OF that, of p] by (simp split: option.splits)
  have a: "\<forall>p. length (handles_on fs p) \<le> 1
              \<and> handles_on fs p = (case openFiles d p of None \<Rightarrow> [] | Some f \<Rightarrow> [f])"
    using one [OF assms] cache_inv_handles_on [OF assms] by simp
  have b: "\<forall>p f. openFiles d p = Some f \<longrightarrow> dirDumper_file flt d p fs = (Inr f, d, fs)"
    by (simp add: dirDumper_file_hit)
  have c: "\<forall>p f d1 fs1. openFiles d p = None \<and> dirDumper_file flt d p fs = (Inr f, d1, fs1) \<longrightarrow>
             openFiles d1 = (openFiles d)(p \<mapsto> f) \<and> filepath_Dir p \<in> dirs fs1
             \<and> handles_on fs1 p = [f] \<and> f \<notin> fst ` set (fds fs) \<and> cache_inv d1 fs1"
  proof (intro allI impI)
    fix p f d1 fs1
    assume h: "openFiles d p = None \<and> dirDumper_file flt d p fs = (Inr f, d1, fs1)"
    then have k: "openFiles d1 = (openFiles d)(p \<mapsto> f) \<and> filepath_Dir p \<in> dirs fs1
         \<and> f \<notin> fst ` set (fds fs) \<and> cache_inv d1 fs1"
      using dirDumper_file_created [OF assms, of p flt f d1 fs1] by simp
    then have "handles_on fs1 p = [f]" using cache_inv_handles_on [of d1 fs1 p] by simp
    then show "openFiles d1 = (openFiles d)(p \<mapsto> f) \<and> filepath_Dir p \<in> dirs fs1
             \<and> handles_on fs1 p = [f] \<and> f \<notin> fst ` set (fds fs) \<and> cache_inv d1 fs1"
      using k by simp
  qed
  have w: "\<forall>p b r d1 fs1. writeToFile flt d p b fs = (r, d1, fs1) \<longrightarrow>
             cache_inv d1 fs1 \<and> openFiles d \<subseteq>\<^sub>m openFiles d1"
    using writeToFile_inv [OF assms] by blast
  have e: "\<forall>l r d1 fs1. Dump flt enc l d fs = (r, d1, fs1) \<longrightarrow>
             cache_inv d1 fs1 \<and> openFiles d \<subseteq>\<^sub>m openFiles d1
             \<and> (\<forall>p. length (handles_on fs1 p) \<le> 1)"
  proof (intro allI impI)
    fix l r d1 fs1 assume "Dump flt enc l d fs = (r, d1, fs1)"
    then obtain errs where "Dump_loop flt enc (Items l) [] d fs = (errs, d1, fs1)"
      by (auto simp: Dump_eq)
    from Dump_loop_inv [OF assms this] have "cache_inv d1 fs1" "openFiles d \<subseteq>\<^sub>m openFiles d1"
      by simp_all
    then show "cache_inv d1 fs1 \<and> openFiles d \<subseteq>\<^sub>m openFiles d1
             \<and> (\<forall>p. length (handles_on fs1 p) \<le> 1)"
      using one [of d1 fs1] by simp
  qed
  have f: "\<forall>ps r fs1. distinct ps \<and> set ps = dom (openFiles d) \<and> Close flt ps d fs = (r, fs1) \<longrightarrow>
             fds fs1 = [] \<and> (\<forall>p. handles_on fs1 p = [])
             \<and> r = Combine (close_failures flt (clock fs) ps)"
  proof (intro allI impI)
    fix ps r fs1
    assume h: "distinct ps \<and> set ps = dom (openFiles d) \<and> Close flt ps d fs = (r, fs1)"
    then have "fds fs1 = [] \<and> r = Combine (close_failures flt (clock fs) ps)"
      using Close_release [OF assms, of ps flt r fs1] by simp
    then show "fds fs1 = [] \<and> (\<forall>p. handles_on fs1 p = [])
             \<and> r = Combine (close_failures flt (clock fs) ps)"
      by (simp add: handles_on_def)
  qed
  have g: "\<forall>dr fs0 d0 fsa. fds fs0 = [] \<and> newDirDumper flt dr fs0 = (Inr d0, fsa) \<longrightarrow>
             cache_inv d0 fsa \<and> openFiles d0 = Map.empty"
    using newDirDumper_inv [where flt = flt] by blast
  have m1: "\<forall>p. openFiles d p = None \<and> \<not> flt (OpMkdirAll (filepath_Dir p)) (clock fs)
               \<and> \<not> flt (OpCreate p) (Suc (clock fs)) \<longrightarrow>
             (\<exists>fs1. dirDumper_file flt d p fs
                      = (Inr (next_fd fs), d\<lparr>openFiles := (openFiles d)(p \<mapsto> next_fd fs)\<rparr>, fs1)
                 \<and> fs1 = tick (tick (fs\<lparr>dirs := dirs fs \<union> parents (filepath_Dir p)\<rparr>)
                                \<lparr>fds := fds fs @ [(next_fd fs, p)], next_fd := Suc (next_fd fs)\<rparr>)
                 \<and> filepath_Dir p \<in> dirs fs1
                 \<and> handles_on fs p = []
                 \<and> handles_on fs1 p = [next_fd fs]
                 \<and> next_fd fs \<notin> fst ` set (fds fs)
                 \<and> cache_inv (d\<lparr>openFiles := (openFiles d)(p \<mapsto> next_fd fs)\<rparr>) fs1)"
  proof (intro allI impI, elim conjE)
    fix p
    assume "openFiles d p = None" "\<not> flt (OpMkdirAll (filepath_Dir p)) (clock fs)"
      "\<not> flt (OpCreate p) (Suc (clock fs))"
    then show "\<exists>fs1. dirDumper_file flt d p fs
                      = (Inr (next_fd fs), d\<lparr>openFiles := (openFiles d)(p \<mapsto> next_fd fs)\<rparr>, fs1)
                 \<and> fs1 = tick (tick (fs\<lparr>dirs := dirs fs \<union> parents (filepath_Dir p)\<rparr>)
                                \<lparr>fds := fds fs @ [(next_fd fs, p)], next_fd := Suc (next_fd fs)\<rparr>)
                 \<and> filepath_Dir p \<in> dirs fs1
                 \<and> handles_on fs p = []
                 \<and> handles_on fs1 p = [next_fd fs]
                 \<and> next_fd fs \<notin> fst ` set (fds fs)
                 \<and> cache_inv (d\<lparr>openFiles := (openFiles d)(p \<mapsto> next_fd fs)\<rparr>) fs1"
      by (rule dirDumper_file_new [OF assms])
  qed
  have m2: "\<forall>p. openFiles d p = None
               \<and> (flt (OpMkdirAll (filepath_Dir p)) (clock fs) \<or> flt (OpCreate p) (Suc (clock fs))) \<longrightarrow>
             (\<exists>e fs1. dirDumper_file flt d p fs = (Inl e, d, fs1)
                 \<and> fds fs1 = fds fs \<and> written fs1 = written fs \<and> cache_inv d fs1)"
  proof (intro allI impI, elim conjE)
    fix p
    assume "openFiles d p = None"
      "flt (OpMkdirAll (filepath_Dir p)) (clock fs) \<or> flt (OpCreate p) (Suc (clock fs))"
    then show "\<exists>e fs1. dirDumper_file flt d p fs = (Inl e, d, fs1)
                 \<and> fds fs1 = fds fs \<and> written fs1 = written fs \<and> cache_inv d fs1"
      by (rule dirDumper_file_failed [OF assms])
  qed
  have wh: "\<forall>p f b. openFiles d p = Some f \<longrightarrow>
             file_Write flt f b fs
               = (if flt (OpWrite p) (clock fs) then (Some (Errno ''write''), tick fs)
                  else (None, tick (fs\<lparr>written := written fs @ [(p, b)]\<rparr>)))
             \<and> writeToFile flt d p b fs
               = (case file_Write flt f b fs of
                    (Some err, fs2) \<Rightarrow> (Some (Wrapped ''failed to copy to file'' err), d, fs2)
                  | (None, fs2) \<Rightarrow> (None, d, fs2))
             \<and> writeToFile flt d p b fs
               = (if flt (OpWrite p) (clock fs)
                  then (Some (Wrapped ''failed to copy to file'' (Errno ''write'')), d, tick fs)
                  else (None, d, tick (fs\<lparr>written := written fs @ [(p, b)]\<rparr>)))
             \<and> fds (snd (snd (writeToFile flt d p b fs))) = fds fs"
  proof (intro allI impI)
    fix p f b assume o: "openFiles d p = Some f"
    have m: "map_of (fds fs) f = Some p" using assms o by (rule cache_inv_map_of)
    have 1: "file_Write flt f b fs
               = (if flt (OpWrite p) (clock fs) then (Some (Errno ''write''), tick fs)
                  else (None, tick (fs\<lparr>written := written fs @ [(p, b)]\<rparr>)))"
      using m by (simp add: file_Write_def)
    have 2: "writeToFile flt d p b fs
               = (case file_Write flt f b fs of
                    (Some err, fs2) \<Rightarrow> (Some (Wrapped ''failed to copy to file'' err), d, fs2)
                  | (None, fs2) \<Rightarrow> (None, d, fs2))"
      using o by (simp add: writeToFile_def dirDumper_file_hit)
    have 3: "writeToFile flt d p b fs
               = (if flt (OpWrite p) (clock fs)
                  then (Some (Wrapped ''failed to copy to file'' (Errno ''write'')), d, tick fs)
                  else (None, d, tick (fs\<lparr>written := written fs @ [(p, b)]\<rparr>)))"
      using assms o by (rule writeToFile_hit)
    have 4: "fds (snd (snd (writeToFile flt d p b fs))) = fds fs"
      unfolding 3 by (simp add: tick_def)
    show "file_Write flt f b fs
               = (if flt (OpWrite p) (clock fs) then (Some (Errno ''write''), tick fs)
                  else (None, tick (fs\<lparr>written := written fs @ [(p, b)]\<rparr>)))
             \<and> writeToFile flt d p b fs
               = (case file_Write flt f b fs of
                    (Some err, fs2) \<Rightarrow> (Some (Wrapped ''failed to copy to file'' err), d, fs2)
                  | (None, fs2) \<Rightarrow> (None, d, fs2))
             \<and> writeToFile flt d p b fs
               = (if flt (OpWrite p) (clock fs)
                  then (Some (Wrapped ''failed to copy to file'' (Errno ''write'')), d, tick fs)
                  else (None, d, tick (fs\<lparr>written := written fs @ [(p, b)]\<rparr>)))
             \<and> fds (snd (snd (writeToFile flt d p b fs))) = fds fs"
      by (intro conjI 1 2 3 4)
  qed
  have wm: "\<forall>p b. openFiles d p = None \<and> \<not> flt (OpMkdirAll (filepath_Dir p)) (clock fs)
               \<and> \<not> flt (OpCreate p) (Suc (clock fs)) \<longrightarrow>
             writeToFile flt d p b fs =
               (let d1 = d\<lparr>openFiles := (openFiles d)(p \<mapsto> next_fd fs)\<rparr>;
                    fs1 = tick (tick (fs\<lparr>dirs := dirs fs \<union> parents (filepath_Dir p)\<rparr>)
                                  \<lparr>fds := fds fs @ [(next_fd fs, p)], next_fd := Suc (next_fd fs)\<rparr>)
                in if flt (OpWrite p) (Suc (Suc (clock fs)))
                   then (Some (Wrapped ''failed to copy to file'' (Errno ''write'')), d1, tick fs1)
                   else (None, d1, tick (fs1\<lparr>written := written fs @ [(p, b)]\<rparr>)))"
  proof (intro allI impI, elim conjE)
    fix p b
    assume "openFiles d p = None" "\<not> flt (OpMkdirAll (filepath_Dir p)) (clock fs)"
      "\<not> flt (OpCreate p) (Suc (clock fs))"
    then show "writeToFile flt d p b fs =
               (let d1 = d\<lparr>openFiles := (openFiles d)(p \<mapsto> next_fd fs)\<rparr>;
                    fs1 = tick (tick (fs\<lparr>dirs := dirs fs \<union> parents (filepath_Dir p)\<rparr>)
                                  \<lparr>fds := fds fs @ [(next_fd fs, p)], next_fd := Suc (next_fd fs)\<rparr>)
                in if flt (OpWrite p) (Suc (Suc (clock fs)))
                   then (Some (Wrapped ''failed to copy to file'' (Errno ''write'')), d1, tick fs1)
                   else (None, d1, tick (fs1\<lparr>written := written fs @ [(p, b)]\<rparr>)))"
      by (rule writeToFile_miss [OF assms])
  qed
  have ww: "\<forall>p b b' r d1 fs1 f. writeToFile flt d p b fs = (r, d1, fs1) \<and> openFiles d1 p = Some f \<longrightarrow>
             handles_on fs1 p = [f]
             \<and> (\<exists>r' fs2. writeToFile flt d1 p b' fs1 = (r', d1, fs2)
                   \<and> fds fs2 = fds fs1 \<and> handles_on fs2 p = [f])"
  proof (intro allI impI, elim conjE)
    fix p b b' r d1 fs1 f
    assume "writeToFile flt d p b fs = (r, d1, fs1)" "openFiles d1 p = Some f"
    then show "handles_on fs1 p = [f]
             \<and> (\<exists>r' fs2. writeToFile flt d1 p b' fs1 = (r', d1, fs2)
                   \<and> fds fs2 = fds fs1 \<and> handles_on fs2 p = [f])"
      by (rule writeToFile_again [OF assms])
  qed
  show ?thesis by (intro conjI a b c w e f g m1 m2 wh wm ww)
qed



theorem handle_cache_lifecycle_witness:
  "cache_inv demo_open_dumper demo_open_fs
   \<and> handles_on demo_open_fs ''out/objects-Pod.json'' = [3]
   \<and> openFiles demo_open_dumper ''out/objects-Pod.json'' = Some 3
   \<and> dirDumper_file no_faults demo_open_dumper ''out/objects-Pod.json'' demo_open_fs
       = (Inr 3, demo_open_dumper, demo_open_fs)
   \<and> distinct [''out/objects-Pod.json'']
   \<and> set [''out/objects-Pod.json''] = dom (openFiles demo_open_dumper)
   \<and> fds (snd (Close no_faults [''out/objects-Pod.json''] demo_open_dumper demo_open_fs)) = []
   \<and> fst (Close no_faults [''out/objects-Pod.json''] demo_open_dumper demo_open_fs) = None
   \<and> openFiles demo_open_dumper
        \<subseteq>\<^sub>m openFiles (fst (snd (Dump no_faults demo_enc (demo_page [demo_pod, demo_node])
                                    demo_open_dumper demo_open_fs)))
   \<and> openFiles demo_open_dumper ''out/objects-Node.json'' = None
   \<and> \<not> no_faults (OpMkdirAll (filepath_Dir ''out/objects-Node.json'')) (clock demo_open_fs)
   \<and> \<not> no_faults (OpCreate ''out/objects-Node.json'') (Suc (clock demo_open_fs))
   \<and> handles_on demo_open_fs ''out/objects-Node.json'' = []
   \<and> dirDumper_file no_faults demo_open_dumper ''out/objects-Node.json'' demo_open_fs
       = (Inr 4,
          demo_open_dumper\<lparr>openFiles := (openFiles demo_open_dumper)(''out/objects-Node.json'' \<mapsto> 4)\<rparr>,
          \<lparr>dirs = {''out''},
           fds = [(3, ''out/objects-Pod.json''), (4, ''out/objects-Node.json'')],
           next_fd = 5, clock = 7,
           written = [(''out/objects-Pod.json'', ''pod-a\<newline>'')]\<rparr>)
   \<and> handles_on (snd (snd (dirDumper_file no_faults demo_open_dumper ''out/objects-Node.json''
                              demo_open_fs))) ''out/objects-Node.json'' = [4]
   \<and> writeToFile no_faults demo_open_dumper ''out/objects-Pod.json'' ''pod-b\<newline>'' demo_open_fs
       = (None, demo_open_dumper,
          \<lparr>dirs = {''out''}, fds = [(3, ''out/objects-Pod.json'')], next_fd = 4, clock = 6,
           written = [(''out/objects-Pod.json'', ''pod-a\<newline>''),
                      (''out/objects-Pod.json'', ''pod-b\<newline>'')]\<rparr>)
   \<and> writeToFile no_faults demo_open_dumper ''out/objects-Node.json'' ''node-a\<newline>'' demo_open_fs
       = (None,
          demo_open_dumper\<lparr>openFiles := (openFiles demo_open_dumper)(''out/objects-Node.json'' \<mapsto> 4)\<rparr>,
          \<lparr>dirs = {''out''},
           fds = [(3, ''out/objects-Pod.json''), (4, ''out/objects-Node.json'')],
           next_fd = 5, clock = 8,
           written = [(''out/objects-Pod.json'', ''pod-a\<newline>''),
                      (''out/objects-Node.json'', ''node-a\<newline>'')]\<rparr>)
   \<and> (\<exists>e fs1. dirDumper_file (\<lambda>op t. op = OpCreate ''out/objects-Node.json'') demo_open_dumper
                   ''out/objects-Node.json'' demo_open_fs = (Inl e, demo_open_dumper, fs1)
          \<and> fds fs1 = fds demo_open_fs)"
proof -
  let ?p = "''out/objects-Pod.json''"
  let ?q = "''out/objects-Node.json''"
  let ?C = "Close no_faults [?p] demo_open_dumper demo_open_fs"
  let ?D = "Dump no_faults demo_enc (demo_page [demo_pod, demo_node]) demo_open_dumper demo_open_fs"
  let ?cf = "\<lambda>op (t :: nat). op = OpCreate ?q"
  have h: "cache_inv demo_open_dumper demo_open_fs" by (rule demo_open_cache_inv)
  note t = handle_cache_lifecycle [OF h, where flt = no_faults and enc = demo_enc]
  note ta = t [THEN conjunct1, rule_format]
  note tb = t [THEN conjunct2, THEN conjunct1, rule_format]
  note te = t [THEN conjunct2, THEN conjunct2, THEN conjunct2, THEN conjunct2, THEN conjunct1,
               rule_format]
  note tf = t [THEN conjunct2, THEN conjunct2, THEN conjunct2, THEN conjunct2, THEN conjunct2,
               THEN conjunct1, rule_format]
  note rest = t [THEN conjunct2, THEN conjunct2, THEN conjunct2, THEN conjunct2, THEN conjunct2,
               THEN conjunct2, THEN conjunct2]
  note tm1 = rest [THEN conjunct1, rule_format]
  note twh = rest [THEN conjunct2, THEN conjunct2, THEN conjunct1, rule_format]
  note twm = rest [THEN conjunct2, THEN conjunct2, THEN conjunct2, THEN conjunct1, rule_format]
  note tm2 = handle_cache_lifecycle [OF h, where flt = ?cf and enc = demo_enc,
               THEN conjunct2, THEN conjunct2, THEN conjunct2, THEN conjunct2, THEN conjunct2,
               THEN conjunct2, THEN conjunct2, THEN conjunct2, THEN conjunct1, rule_format]
  have o: "openFiles demo_open_dumper ?p = Some 3" by (simp add: demo_open_dumper_def)
  have a: "handles_on demo_open_fs ?p = [3]" using ta [of ?p] o by simp
  have b: "dirDumper_file no_faults demo_open_dumper ?p demo_open_fs = (Inr 3, demo_open_dumper, demo_open_fs)"
    using o by (rule tb)
  have c1: "distinct [?p]" by simp
  have c2: "set [?p] = dom (openFiles demo_open_dumper)" by (simp add: demo_open_dumper_def)
  have c3: "?C = (fst ?C, snd ?C)" by simp
  have c: "fds (snd ?C) = [] \<and> (\<forall>p. handles_on (snd ?C) p = [])
           \<and> fst ?C = Combine (close_failures no_faults (clock demo_open_fs) [?p])"
    by (rule tf) (intro conjI c1 c2 c3)
  then have c4: "fds (snd ?C) = []" and c5: "fst ?C = None"
    by (simp_all add: no_faults_def Combine_def)
  have d1: "?D = (fst ?D, fst (snd ?D), snd (snd ?D))" by simp
  have d: "openFiles demo_open_dumper \<subseteq>\<^sub>m openFiles (fst (snd ?D))"
    using te [OF d1] by simp
  have o2: "openFiles demo_open_dumper ?q = None" by (simp add: demo_open_dumper_def)
  have n1: "\<not> no_faults (OpMkdirAll (filepath_Dir ?q)) (clock demo_open_fs)"
    by (simp add: no_faults_def)
  have n2: "\<not> no_faults (OpCreate ?q) (Suc (clock demo_open_fs))" by (simp add: no_faults_def)
  have pre: "openFiles demo_open_dumper ?q = None
             \<and> \<not> no_faults (OpMkdirAll (filepath_Dir ?q)) (clock demo_open_fs)
             \<and> \<not> no_faults (OpCreate ?q) (Suc (clock demo_open_fs))"
    by (intro conjI o2 n1 n2)
  have nf: "next_fd demo_open_fs = 4" by (simp add: demo_open_fs_def)
  from tm1 [OF pre] obtain fs1 where
    m: "dirDumper_file no_faults demo_open_dumper ?q demo_open_fs
        = (Inr (next_fd demo_open_fs),
           demo_open_dumper\<lparr>openFiles := (openFiles demo_open_dumper)(?q \<mapsto> next_fd demo_open_fs)\<rparr>, fs1)"
    and fs1: "fs1 = tick (tick (demo_open_fs\<lparr>dirs := dirs demo_open_fs \<union> parents (filepath_Dir ?q)\<rparr>)
                          \<lparr>fds := fds demo_open_fs @ [(next_fd demo_open_fs, ?q)],
                            next_fd := Suc (next_fd demo_open_fs)\<rparr>)"
    and h0: "handles_on demo_open_fs ?q = []"
    and h1: "handles_on fs1 ?q = [next_fd demo_open_fs]"
    by blast
  have fs1': "fs1 = \<lparr>dirs = {''out''}, fds = [(3, ?p), (4, ?q)], next_fd = 5, clock = 7,
                     written = [(?p, ''pod-a\<newline>'')]\<rparr>"
    unfolding fs1 demo_Dir_Node demo_parents_out by (simp add: demo_open_fs_def tick_def)
  have m': "dirDumper_file no_faults demo_open_dumper ?q demo_open_fs
       = (Inr 4, demo_open_dumper\<lparr>openFiles := (openFiles demo_open_dumper)(?q \<mapsto> 4)\<rparr>,
          \<lparr>dirs = {''out''}, fds = [(3, ?p), (4, ?q)], next_fd = 5, clock = 7,
           written = [(?p, ''pod-a\<newline>'')]\<rparr>)"
    using m unfolding nf fs1' .
  have h1': "handles_on (snd (snd (dirDumper_file no_faults demo_open_dumper ?q demo_open_fs))) ?q = [4]"
    using h1 unfolding m nf by simp
  have wh: "writeToFile no_faults demo_open_dumper ?p ''pod-b\<newline>'' demo_open_fs
       = (None, demo_open_dumper,
          \<lparr>dirs = {''out''}, fds = [(3, ?p)], next_fd = 4, clock = 6,
           written = [(?p, ''pod-a\<newline>''), (?p, ''pod-b\<newline>'')]\<rparr>)"
    using twh [OF o, of "''pod-b\<newline>''", THEN conjunct2, THEN conjunct2, THEN conjunct1]
    by (simp add: no_faults_def demo_open_fs_def tick_def)
  have wm: "writeToFile no_faults demo_open_dumper ?q ''node-a\<newline>'' demo_open_fs
       = (None, demo_open_dumper\<lparr>openFiles := (openFiles demo_open_dumper)(?q \<mapsto> 4)\<rparr>,
          \<lparr>dirs = {''out''}, fds = [(3, ?p), (4, ?q)], next_fd = 5, clock = 8,
           written = [(?p, ''pod-a\<newline>''), (?q, ''node-a\<newline>'')]\<rparr>)"
    using twm [OF pre, of "''node-a\<newline>''"] unfolding demo_Dir_Node demo_parents_out
    by (simp add: no_faults_def demo_open_fs_def tick_def Let_def)
  have pre2: "openFiles demo_open_dumper ?q = None
             \<and> (?cf (OpMkdirAll (filepath_Dir ?q)) (clock demo_open_fs)
                 \<or> ?cf (OpCreate ?q) (Suc (clock demo_open_fs)))"
    using o2 by simp
  have fl: "\<exists>e fs1. dirDumper_file ?cf demo_open_dumper ?q demo_open_fs = (Inl e, demo_open_dumper, fs1)
          \<and> fds fs1 = fds demo_open_fs"
    using tm2 [OF pre2] by blast
  show ?thesis by (intro conjI h a o b c1 c2 c4 c5 d o2 n1 n2 h0 m' h1' wh wm fl)
qed

end
